theory Spec2Isabelle
  imports Main "HOL-Library.Word"
begin

section \<open>Values of the host language\<close>

text \<open>
  The elements of a \<open>Uint32Array\<close> are 32-bit words. Everything else the module
  computes with is a JavaScript number or \<open>undefined\<close>: a module variable declared
  with \<open>let x: number;\<close> is \<open>undefined\<close> until it is assigned, and reading a typed array
  past its end gives \<open>undefined\<close>. Numbers are modelled by the naturals (the sums
  of array elements computed here are exact as long as they stay below \<open>2^53\<close>),
  with \<open>NaN\<close> for the result of an addition that involves \<open>undefined\<close>.
\<close>

type_synonym u32 = "32 word"

datatype jsval = Undefined | NaN | Num nat

fun js_add :: "jsval \<Rightarrow> jsval \<Rightarrow> jsval" where
  "js_add (Num a) (Num b) = Num (a + b)"
| "js_add _ _ = NaN"

text \<open>\<open>a == b\<close> on numbers and \<open>undefined\<close>.\<close>

fun loose_eq :: "jsval \<Rightarrow> jsval \<Rightarrow> bool" where
  "loose_eq (Num a) (Num b) = (a = b)"
| "loose_eq Undefined Undefined = True"
| "loose_eq _ _ = False"

text \<open>\<open>a === 0\<close>.\<close>

fun is_zero :: "jsval \<Rightarrow> bool" where
  "is_zero (Num a) = (a = 0)"
| "is_zero _ = False"

text \<open>The conversion applied when a value is stored into a \<open>Uint32Array\<close>.\<close>

fun to_uint32 :: "jsval \<Rightarrow> u32" where
  "to_uint32 (Num a) = word_of_nat a"
| "to_uint32 _ = 0"

text \<open>\<open>a[i]\<close> and \<open>a[i] = v\<close> on a typed array: a read past the end is \<open>undefined\<close>,
  a write past the end is ignored.\<close>

definition get :: "u32 list \<Rightarrow> nat \<Rightarrow> jsval" where
  "get a i = (if i < length a then Num (unat (a ! i)) else Undefined)"

definition put :: "u32 list \<Rightarrow> nat \<Rightarrow> jsval \<Rightarrow> u32 list" where
  "put a i v = (if i < length a then a[i := to_uint32 v] else a)"

section \<open>The store of typed arrays\<close>

text \<open>
  Typed arrays are objects: the cache, a payload and the buffer handed downstream may
  refer to the same array. A \<open>Uint32Array\<close> value is therefore a reference into a store;
  the store is the list of all arrays allocated so far and a reference is a position in it.
\<close>

type_synonym ref = nat
type_synonym store = "u32 list list"

datatype error = RangeError

text \<open>\<open>new Uint32Array(n)\<close>: a fresh zero-filled array; a negative length is a
  \<open>RangeError\<close>. (The engine's upper limit on the length of an array is not modelled.)\<close>

definition new_Uint32Array :: "store \<Rightarrow> int \<Rightarrow> error + (ref \<times> store)" where
  "new_Uint32Array h n =
     (if n < 0 then Inl RangeError else Inr (length h, h @ [replicate (nat n) 0]))"

text \<open>\<open>a.subarray(begin, end)\<close> for non-negative arguments: both ends are clamped to the
  length of the array.\<close>

definition subarray :: "u32 list \<Rightarrow> nat \<Rightarrow> nat \<Rightarrow> u32 list" where
  "subarray a b e =
     (let b' = min b (length a); e' = min e (length a)
      in take (e' - b') (drop b' a))"

text \<open>\<open>dest.set(src, offset)\<close>: a \<open>RangeError\<close> when the source does not fit.\<close>

definition typed_set :: "store \<Rightarrow> ref \<Rightarrow> u32 list \<Rightarrow> nat \<Rightarrow> error + store" where
  "typed_set h dest src off =
     (if length src + off > length (h ! dest) then Inl RangeError
      else Inr (h[dest := take off (h ! dest) @ src @ drop (off + length src) (h ! dest)]))"

section \<open>Data of the module\<close>

type_synonym TextDocument = nat

record TextEditor =
  editor_id :: nat
  document :: TextDocument

text \<open>A \<open>vscode.Range\<close> built from two positions, kept as the four numbers given to the
  constructors of the positions. (The host's constructor orders the two positions; the
  ranges built here have both on one line and end at the start character plus a length,
  so they are stored as given. The host's constructors reject negative numbers only,
  and none is passed here, so building a range never fails.)\<close>

record Range =
  start_line :: jsval
  start_character :: jsval
  end_line :: jsval
  end_character :: jsval

record SemanticTokens =
  resultId :: "string option"
  data :: ref

record SemanticTokensEdit =
  start :: nat
  deleteCount :: nat
  edit_data :: "ref option"

record SemanticTokensEdits =
  edits_resultId :: "string option"
  edits :: "SemanticTokensEdit list"

text \<open>\<open>vscode.SemanticTokens | vscode.SemanticTokensEdits\<close>; \<open>isSemanticTokens\<close> tells
  the two apart by the presence of the field \<open>data\<close>.\<close>

datatype payload = Full SemanticTokens | Delta SemanticTokensEdits

fun isSemanticTokens :: "payload \<Rightarrow> bool" where
  "isSemanticTokens (Full _) = True"
| "isSemanticTokens (Delta _) = False"

text \<open>
  The module state: the two module variables set by \<open>initialize\<close>, the two weak maps,
  and the part of the host the module talks to: the visible editors, the decorations
  requested so far (one entry for each call of \<open>setDecorations\<close>, oldest first) and the
  store of typed arrays.
\<close>

record state =
  inactiveCodeTokenTypeIndex :: jsval
  inactiveCodeTokenTypeReplaceIndex :: jsval
  lastTokens :: "TextDocument \<rightharpoonup> SemanticTokens"
  lastInactiveRanges :: "TextDocument \<rightharpoonup> Range list"
  visibleTextEditors :: "TextEditor list"
  decorations :: "(TextEditor \<times> Range list) list"
  store :: store

section \<open>The capability resolver\<close>

text \<open>
  \<open>capabilities.semanticTokensProvider\<close> is optional; of the provider only
  \<open>legend.tokenTypes\<close> is read. The loop of \<open>initialize\<close> runs over all indices and
  assigns \<open>inactiveCodeTokenTypeIndex\<close> at each one that holds \<open>'comment'\<close>.
\<close>

record ServerCapabilities =
  semanticTokensProvider :: "string list option"

fun initialize_loop :: "string list \<Rightarrow> nat \<Rightarrow> jsval \<Rightarrow> jsval" where
  "initialize_loop [] i cur = cur"
| "initialize_loop (t # ts) i cur =
     initialize_loop ts (Suc i) (if t = ''comment'' then Num i else cur)"

definition initialize :: "state \<Rightarrow> ServerCapabilities \<Rightarrow> state" where
  "initialize s capabilities =
     (case semanticTokensProvider capabilities of
        None \<Rightarrow> s
      | Some tokenTypes \<Rightarrow>
          s\<lparr>inactiveCodeTokenTypeIndex :=
               initialize_loop tokenTypes 0 (inactiveCodeTokenTypeIndex s),
            inactiveCodeTokenTypeReplaceIndex := Num (length tokenTypes)\<rparr>)"

text \<open>The state of the module when it has been loaded and nothing has run yet.\<close>

definition initial_state :: "store \<Rightarrow> TextEditor list \<Rightarrow> state" where
  "initial_state h editors =
     \<lparr>inactiveCodeTokenTypeIndex = Undefined,
      inactiveCodeTokenTypeReplaceIndex = Undefined,
      lastTokens = Map.empty,
      lastInactiveRanges = Map.empty,
      visibleTextEditors = editors,
      decorations = [],
      store = h\<rparr>"

section \<open>The decoration applier\<close>

definition applyInactiveRegions :: "state \<Rightarrow> TextEditor \<Rightarrow> state" where
  "applyInactiveRegions s editor =
     (case lastInactiveRanges s (document editor) of
        Some inactiveRanges \<Rightarrow> s\<lparr>decorations := decorations s @ [(editor, inactiveRanges)]\<rparr>
      | None \<Rightarrow> s)"

text \<open>The handler that \<open>activate\<close> registers for \<open>onDidChangeVisibleTextEditors\<close>.\<close>

fun onDidChangeVisibleTextEditors :: "state \<Rightarrow> TextEditor list \<Rightarrow> state" where
  "onDidChangeVisibleTextEditors s [] = s"
| "onDidChangeVisibleTextEditors s (editor # editors) =
     onDidChangeVisibleTextEditors (applyInactiveRegions s editor) editors"

fun applyInactiveRegionsToDocument_loop :: "state \<Rightarrow> TextDocument \<Rightarrow> TextEditor list \<Rightarrow> state" where
  "applyInactiveRegionsToDocument_loop s doc [] = s"
| "applyInactiveRegionsToDocument_loop s doc (editor # editors) =
     applyInactiveRegionsToDocument_loop
       (if document editor = doc then applyInactiveRegions s editor else s) doc editors"

definition applyInactiveRegionsToDocument :: "state \<Rightarrow> TextDocument \<Rightarrow> state" where
  "applyInactiveRegionsToDocument s doc =
     applyInactiveRegionsToDocument_loop s doc (visibleTextEditors s)"

section \<open>The token codec\<close>

text \<open>
  Both loops run while \<open>tokenIndex < data.length / 5\<close>, a comparison of real numbers:
  that is \<open>5 * tokenIndex < data.length\<close>, so a buffer whose length is not a multiple
  of 5 gets one more round, for its incomplete last tuple. The length of a typed array
  never changes; in \<open>replaceInactiveRanges_loop\<close>, which writes to the store, it is the
  argument \<open>n\<close>.
\<close>

function replaceInactiveRanges_loop ::
  "jsval \<Rightarrow> jsval \<Rightarrow> ref \<Rightarrow> nat \<Rightarrow> store \<Rightarrow> nat \<Rightarrow> store" where
  "replaceInactiveRanges_loop idx rep d n h tokenIndex =
     (if 5 * tokenIndex < n then
        (let offset = 5 * tokenIndex in
         replaceInactiveRanges_loop idx rep d n
           (if loose_eq (get (h ! d) (offset + 3)) idx
            then h[d := put (h ! d) (offset + 3) rep] else h)
           (Suc tokenIndex))
      else h)"
  by pat_completeness auto
termination
  by (relation "measure (\<lambda>(idx, rep, d, n, h, tokenIndex). n - 5 * tokenIndex)") auto

definition replaceInactiveRanges :: "state \<Rightarrow> SemanticTokens \<Rightarrow> state \<times> (error + SemanticTokens)" where
  "replaceInactiveRanges s tokens =
     (let src = store s ! data tokens in
      case new_Uint32Array (store s) (int (length src)) of
        Inl e \<Rightarrow> (s, Inl e)
      | Inr (d, h1) \<Rightarrow>
          (case typed_set h1 d src 0 of
             Inl e \<Rightarrow> (s\<lparr>store := h1\<rparr>, Inl e)
           | Inr h2 \<Rightarrow>
               (s\<lparr>store := replaceInactiveRanges_loop (inactiveCodeTokenTypeIndex s)
                               (inactiveCodeTokenTypeReplaceIndex s) d (length (h2 ! d)) h2 0\<rparr>,
                Inr \<lparr>resultId = resultId tokens, data = d\<rparr>)))"

function computeInactiveRanges_loop ::
  "jsval \<Rightarrow> u32 list \<Rightarrow> nat \<Rightarrow> jsval \<Rightarrow> jsval \<Rightarrow> Range list \<Rightarrow> Range list" where
  "computeInactiveRanges_loop idx a tokenIndex lastLineNumber lastStartCharacter inactiveRanges =
     (if 5 * tokenIndex < length a then
        (let offset = 5 * tokenIndex;
             deltaLine = get a offset;
             deltaCharacter = get a (offset + 1);
             lineNumber = js_add lastLineNumber deltaLine;
             startCharacter =
               (if is_zero deltaLine then js_add lastStartCharacter deltaCharacter
                else deltaCharacter);
             len = get a (offset + 2);
             tokenTypeIndex = get a (offset + 3)
         in computeInactiveRanges_loop idx a (Suc tokenIndex) lineNumber startCharacter
              (if loose_eq tokenTypeIndex idx
               then inactiveRanges @
                      [\<lparr>start_line = lineNumber, start_character = startCharacter,
                        end_line = lineNumber, end_character = js_add startCharacter len\<rparr>]
               else inactiveRanges))
      else inactiveRanges)"
  by pat_completeness auto
termination
  by (relation "measure (\<lambda>(idx, a, tokenIndex, l, c, rs). length a - 5 * tokenIndex)") auto

definition computeInactiveRanges :: "state \<Rightarrow> SemanticTokens \<Rightarrow> Range list" where
  "computeInactiveRanges s tokens =
     computeInactiveRanges_loop (inactiveCodeTokenTypeIndex s) (store s ! data tokens)
       0 (Num 0) (Num 0) []"

section \<open>Full payloads\<close>

definition provideDocumentSemanticTokens ::
  "state \<Rightarrow> TextDocument \<Rightarrow> SemanticTokens \<Rightarrow> state \<times> (error + SemanticTokens)" where
  "provideDocumentSemanticTokens s doc tokens =
     (let s1 = s\<lparr>lastTokens := (lastTokens s)(doc \<mapsto> tokens)\<rparr>;
          s2 = s1\<lparr>lastInactiveRanges :=
                    (lastInactiveRanges s1)(doc \<mapsto> computeInactiveRanges s1 tokens)\<rparr>;
          s3 = applyInactiveRegionsToDocument s2 doc
      in replaceInactiveRanges s3 tokens)"

section \<open>The delta reconstructor\<close>

text \<open>\<open>copy\<close> writes \<open>src.subarray(srcOffset, srcOffset + length)\<close> into \<open>dest\<close> at
  \<open>destOffset\<close>.\<close>

definition copy :: "store \<Rightarrow> ref \<Rightarrow> nat \<Rightarrow> ref \<Rightarrow> nat \<Rightarrow> nat \<Rightarrow> error + store" where
  "copy h dest destOffset src srcOffset len =
     typed_set h dest (subarray (h ! src) srcOffset (srcOffset + len)) destOffset"

text \<open>The first loop of \<open>applyDelta\<close>: the change of length, which may be negative.\<close>

fun deltaLength_loop :: "store \<Rightarrow> SemanticTokensEdit list \<Rightarrow> int \<Rightarrow> int" where
  "deltaLength_loop h [] deltaLength = deltaLength"
| "deltaLength_loop h (edit # es) deltaLength =
     deltaLength_loop h es
       (deltaLength +
          ((case edit_data edit of Some r \<Rightarrow> int (length (h ! r)) | None \<Rightarrow> 0)
           - int (deleteCount edit)))"

text \<open>The second loop, with the cursors \<open>readIndex\<close> and \<open>insertIndex\<close>. A \<open>RangeError\<close> of
  \<open>copy\<close> ends it.\<close>

fun applyDelta_loop ::
  "store \<Rightarrow> ref \<Rightarrow> ref \<Rightarrow> SemanticTokensEdit list \<Rightarrow> nat \<Rightarrow> nat \<Rightarrow> error + (store \<times> nat \<times> nat)" where
  "applyDelta_loop h destData srcData [] readIndex insertIndex = Inr (h, readIndex, insertIndex)"
| "applyDelta_loop h destData srcData (edit # es) readIndex insertIndex =
     (let copyCount = int (start edit) - int readIndex in
      case (if copyCount > 0
            then (case copy h destData insertIndex srcData readIndex (nat copyCount) of
                    Inl e \<Rightarrow> Inl e
                  | Inr h1 \<Rightarrow> Inr (h1, insertIndex + nat copyCount))
            else Inr (h, insertIndex)) of
        Inl e \<Rightarrow> Inl e
      | Inr (h1, insertIndex1) \<Rightarrow>
          (case (case edit_data edit of
                   Some r \<Rightarrow>
                     (case copy h1 destData insertIndex1 r 0 (length (h1 ! r)) of
                        Inl e \<Rightarrow> Inl e
                      | Inr h2 \<Rightarrow> Inr (h2, insertIndex1 + length (h1 ! r)))
                 | None \<Rightarrow> Inr (h1, insertIndex1)) of
             Inl e \<Rightarrow> Inl e
           | Inr (h2, insertIndex2) \<Rightarrow>
               applyDelta_loop h2 destData srcData es
                 (start edit + deleteCount edit) insertIndex2))"

definition applyDelta ::
  "store \<Rightarrow> SemanticTokens \<Rightarrow> SemanticTokensEdits \<Rightarrow> error + (store \<times> SemanticTokens)" where
  "applyDelta h prev delta =
     (let deltaLength = deltaLength_loop h (edits delta) 0;
          srcData = data prev
      in case new_Uint32Array h (int (length (h ! srcData)) + deltaLength) of
           Inl e \<Rightarrow> Inl e
         | Inr (destData, h1) \<Rightarrow>
             (case applyDelta_loop h1 destData srcData (edits delta) 0 0 of
                Inl e \<Rightarrow> Inl e
              | Inr (h2, readIndex, insertIndex) \<Rightarrow>
                  (case (if readIndex < length (h2 ! srcData)
                         then copy h2 destData insertIndex srcData readIndex
                                (length (h2 ! srcData) - readIndex)
                         else Inr h2) of
                     Inl e \<Rightarrow> Inl e
                   | Inr h3 \<Rightarrow> Inr (h3, \<lparr>resultId = edits_resultId delta, data = destData\<rparr>))))"

section \<open>Delta payloads\<close>

text \<open>
  \<open>cache_hit\<close> is the condition under which a delta is applied: a buffer is cached for
  the document and its result id is the previous result id supplied. The source tests
  the opposite, \<open>!previousTokens || previousTokens.resultId !== previousResultId\<close>, and
  returns the delta when it holds.
\<close>

definition cache_hit :: "state \<Rightarrow> TextDocument \<Rightarrow> string \<Rightarrow> bool" where
  "cache_hit s doc previousResultId =
     (case lastTokens s doc of
        None \<Rightarrow> False
      | Some previousTokens \<Rightarrow> resultId previousTokens = Some previousResultId)"

text \<open>
  The case distinction on the payload is \<open>isSemanticTokens\<close>. When \<open>applyDelta\<close> throws,
  the caches are as before; the typed array it had allocated is unreachable and is
  left out of the store.
\<close>

definition provideDocumentSemanticTokensEdits ::
  "state \<Rightarrow> TextDocument \<Rightarrow> string \<Rightarrow> payload \<Rightarrow> state \<times> (error + payload)" where
  "provideDocumentSemanticTokensEdits s doc previousResultId tokens =
     (case tokens of
        Full t \<Rightarrow>
          (case provideDocumentSemanticTokens s doc t of (s', r) \<Rightarrow> (s', map_sum id Full r))
      | Delta d \<Rightarrow>
          (case lastTokens s doc of
             None \<Rightarrow> (s, Inr tokens)
           | Some previousTokens \<Rightarrow>
               if resultId previousTokens \<noteq> Some previousResultId then (s, Inr tokens)
               else
                 (case applyDelta (store s) previousTokens d of
                    Inl e \<Rightarrow> (s, Inl e)
                  | Inr (h, t) \<Rightarrow>
                      (case provideDocumentSemanticTokens (s\<lparr>store := h\<rparr>) doc t of
                         (s', r) \<Rightarrow> (s', map_sum id Full r)))))"

text \<open>Both kinds of payload carry a result id.\<close>

fun payload_resultId :: "payload \<Rightarrow> string option" where
  "payload_resultId (Full t) = resultId t"
| "payload_resultId (Delta d) = edits_resultId d"

section \<open>The specification's view of the codec\<close>

text \<open>
  A buffer whose length is a multiple of 5 is a sequence of token runs
  \<open>(deltaLine, deltaStartChar, length, typeIndex, modifierBitset)\<close>.
\<close>

type_synonym token = "nat \<times> nat \<times> nat \<times> nat \<times> nat"

definition tuple_at :: "u32 list \<Rightarrow> nat \<Rightarrow> token" where
  "tuple_at a p =
     (unat (a ! (5 * p)), unat (a ! (5 * p + 1)), unat (a ! (5 * p + 2)),
      unat (a ! (5 * p + 3)), unat (a ! (5 * p + 4)))"

definition tuples :: "u32 list \<Rightarrow> token list" where
  "tuples a = map (tuple_at a) [0..<length a div 5]"

fun typeIndex :: "token \<Rightarrow> nat" where
  "typeIndex (deltaLine, deltaChar, len, ty, modifiers) = ty"

definition range_of :: "nat \<Rightarrow> nat \<Rightarrow> nat \<Rightarrow> Range" where
  "range_of line startChar len =
     \<lparr>start_line = Num line, start_character = Num startChar,
      end_line = Num line, end_character = Num (startChar + len)\<rparr>"

text \<open>
  Decoding as the specification words it: running accumulators for the line and the
  start character; the absolute line is the running line plus \<open>deltaLine\<close>; the absolute
  start character is \<open>deltaChar\<close> when \<open>deltaLine\<close> is not 0 and the running start
  character plus \<open>deltaChar\<close> otherwise; a range is emitted when the type index is the
  inactive one, and the accumulators are updated for every tuple.
\<close>

fun decode :: "jsval \<Rightarrow> nat \<Rightarrow> nat \<Rightarrow> token list \<Rightarrow> Range list" where
  "decode idx runningLine runningStartChar [] = []"
| "decode idx runningLine runningStartChar ((deltaLine, deltaChar, len, ty, modifiers) # ts) =
     (let line = runningLine + deltaLine;
          startChar = (if deltaLine \<noteq> 0 then deltaChar else runningStartChar + deltaChar)
      in (if loose_eq (Num ty) idx then [range_of line startChar len] else [])
           @ decode idx line startChar ts)"

text \<open>The absolute range of every tuple, whatever its category.\<close>

fun absolute_ranges :: "nat \<Rightarrow> nat \<Rightarrow> token list \<Rightarrow> Range list" where
  "absolute_ranges runningLine runningStartChar [] = []"
| "absolute_ranges runningLine runningStartChar ((deltaLine, deltaChar, len, ty, modifiers) # ts) =
     (let line = runningLine + deltaLine;
          startChar = (if deltaLine \<noteq> 0 then deltaChar else runningStartChar + deltaChar)
      in range_of line startChar len # absolute_ranges line startChar ts)"

text \<open>The tuple positions of a buffer whose type index is the inactive one.\<close>

definition inactive_positions :: "jsval \<Rightarrow> u32 list \<Rightarrow> nat list" where
  "inactive_positions idx a =
     filter (\<lambda>p. loose_eq (Num (unat (a ! (5 * p + 3)))) idx) [0..<length a div 5]"

text \<open>Remapping as the specification words it: the type index of a tuple, the fourth
  of its five integers, becomes the sentinel when it is the inactive one; every other
  integer is copied.\<close>

definition remap :: "jsval \<Rightarrow> jsval \<Rightarrow> u32 list \<Rightarrow> u32 list" where
  "remap idx rep a =
     map (\<lambda>j. if j mod 5 = 3 \<and> loose_eq (Num (unat (a ! j))) idx then to_uint32 rep else a ! j)
       [0..<length a]"

section \<open>The specification's view of a delta\<close>

text \<open>The integers an edit inserts: those of \<open>edit.data\<close>, none when it is absent.\<close>

definition insertData :: "store \<Rightarrow> SemanticTokensEdit \<Rightarrow> u32 list" where
  "insertData h edit = (case edit_data edit of Some r \<Rightarrow> h ! r | None \<Rightarrow> [])"

text \<open>A splice of a sequence: delete \<open>del\<close> integers at offset \<open>off\<close>, then insert \<open>ins\<close>
  there.\<close>

definition splice :: "u32 list \<Rightarrow> nat \<Rightarrow> nat \<Rightarrow> u32 list \<Rightarrow> u32 list" where
  "splice b off del ins = take off b @ ins @ drop (off + del) b"

text \<open>The edits performed one after the other, first edit first, each on the sequence
  the edits before it have left.\<close>

fun splice_in_order :: "store \<Rightarrow> u32 list \<Rightarrow> SemanticTokensEdit list \<Rightarrow> u32 list" where
  "splice_in_order h b [] = b"
| "splice_in_order h b (edit # es) =
     splice_in_order h (splice b (start edit) (deleteCount edit) (insertData h edit)) es"

text \<open>The edits performed last edit first, so that the offsets of every edit are
  offsets into the buffer the delta was computed against.\<close>

fun splice_from_last :: "store \<Rightarrow> u32 list \<Rightarrow> SemanticTokensEdit list \<Rightarrow> u32 list" where
  "splice_from_last h b [] = b"
| "splice_from_last h b (edit # es) =
     splice (splice_from_last h b es) (start edit) (deleteCount edit) (insertData h edit)"

text \<open>Edits sorted by ascending start that do not overlap and lie inside a buffer of
  length \<open>n\<close>; \<open>lo\<close> is the offset where the edit before ended.\<close>

fun edits_sorted :: "nat \<Rightarrow> nat \<Rightarrow> SemanticTokensEdit list \<Rightarrow> bool" where
  "edits_sorted lo n [] = (lo \<le> n)"
| "edits_sorted lo n (edit # es) =
     (lo \<le> start edit \<and> edits_sorted (start edit + deleteCount edit) n es)"

text \<open>The data arrays of the edits are arrays of the store.\<close>

fun edits_allocated :: "store \<Rightarrow> SemanticTokensEdit list \<Rightarrow> bool" where
  "edits_allocated h [] = True"
| "edits_allocated h (edit # es) =
     ((case edit_data edit of Some r \<Rightarrow> r < length h | None \<Rightarrow> True) \<and> edits_allocated h es)"

text \<open>The sum over all edits of the inserted length minus the deleted count.\<close>

fun length_change :: "store \<Rightarrow> SemanticTokensEdit list \<Rightarrow> int" where
  "length_change h [] = 0"
| "length_change h (edit # es) =
     int (length (insertData h edit)) - int (deleteCount edit) + length_change h es"

text \<open>What the second loop of \<open>applyDelta\<close> has to write when it starts with the read
  cursor at \<open>r\<close>: for each edit the run of the buffer up to the start of the edit and the
  inserted data; and where the read cursor is when the loop ends.\<close>

fun loop_output :: "store \<Rightarrow> nat \<Rightarrow> u32 list \<Rightarrow> SemanticTokensEdit list \<Rightarrow> u32 list" where
  "loop_output h r b [] = []"
| "loop_output h r b (edit # es) =
     take (start edit - r) (drop r b) @ insertData h edit @
     loop_output h (start edit + deleteCount edit) b es"

fun final_readIndex :: "nat \<Rightarrow> SemanticTokensEdit list \<Rightarrow> nat" where
  "final_readIndex r [] = r"
| "final_readIndex r (edit # es) = final_readIndex (start edit + deleteCount edit) es"

section \<open>Concrete inputs\<close>

text \<open>A legend with \<open>'comment'\<close> at index 7, a legend of two categories that does not
  name \<open>'comment'\<close>, the buffer of the specification's decoding
  example, a buffer of seven integers, a buffer without inactive tokens, the data of an
  edit, and a state in which the four are allocated, document 0 is shown by one editor
  and the legend has been resolved.\<close>

definition example_legend :: "string list" where
  "example_legend =
     [''variable'', ''parameter'', ''function'', ''method'', ''property'', ''class'', ''enum'',
      ''comment'']"

definition legend_without_comment :: "string list" where
  "legend_without_comment = [''variable'', ''function'']"

definition example_buffer :: "u32 list" where
  "example_buffer = [0, 5, 3, 7, 0,  0, 3, 4, 7, 0,  1, 2, 6, 7, 0]"

definition short_buffer :: "u32 list" where
  "short_buffer = [0, 5, 3, 7, 0,  0, 3]"

definition plain_buffer :: "u32 list" where
  "plain_buffer = [0, 5, 3, 2, 0,  1, 2, 6, 4, 0]"

definition insert_buffer :: "u32 list" where
  "insert_buffer = [2, 1, 4, 7, 0]"

definition example_editor :: TextEditor where
  "example_editor = \<lparr>editor_id = 0, document = 0\<rparr>"

definition example_state :: state where
  "example_state =
     initialize
       (initial_state [example_buffer, short_buffer, plain_buffer, insert_buffer] [example_editor])
       \<lparr>semanticTokensProvider = Some example_legend\<rparr>"

definition example_tokens :: SemanticTokens where
  "example_tokens = \<lparr>resultId = Some ''r1'', data = 0\<rparr>"

definition short_tokens :: SemanticTokens where
  "short_tokens = \<lparr>resultId = Some ''r2'', data = 1\<rparr>"

definition plain_tokens :: SemanticTokens where
  "plain_tokens = \<lparr>resultId = Some ''r3'', data = 2\<rparr>"

text \<open>A delta of two edits against the example buffer: the first inserts one token run
  at the start, the second deletes the second token run of the buffer.\<close>

definition example_delta :: SemanticTokensEdits where
  "example_delta =
     \<lparr>edits_resultId = Some ''r4'',
      edits = [\<lparr>start = 0, deleteCount = 0, edit_data = Some 3\<rparr>,
               \<lparr>start = 5, deleteCount = 5, edit_data = None\<rparr>]\<rparr>"

text \<open>The state after the example payload has been processed for document 0.\<close>

definition cached_state :: state where
  "cached_state = fst (provideDocumentSemanticTokens example_state 0 example_tokens)"

section \<open>Properties of the codec loops\<close>

declare computeInactiveRanges_loop.simps [simp del]
declare replaceInactiveRanges_loop.simps [simp del]

lemma computeInactiveRanges_loop_decode:
  "length a = 5 * n \<Longrightarrow> k \<le> n \<Longrightarrow>
   computeInactiveRanges_loop idx a k (Num l) (Num c) acc =
     acc @ decode idx l c (map (tuple_at a) [k..<n])"
proof (induction "n - k" arbitrary: k l c acc)
  case 0
  then show ?case by (simp add: computeInactiveRanges_loop.simps)
next
  case (Suc m)
  then have k: "k < n" and m: "m = n - Suc k" by arith+
  have r: "[k..<n] = k # [Suc k..<n]" using k by (simp add: upt_conv_Cons)
  show ?case
    using Suc.hyps(1)[OF m] Suc.prems k
    apply (subst computeInactiveRanges_loop.simps)
    apply (simp add: r Let_def get_def tuple_at_def range_of_def)
    done
qed

lemma computeInactiveRanges_decode:
  "length (store s ! data t) mod 5 = 0 \<Longrightarrow>
   computeInactiveRanges s t = decode (inactiveCodeTokenTypeIndex s) 0 0 (tuples (store s ! data t))"
  using computeInactiveRanges_loop_decode[of "store s ! data t" "length (store s ! data t) div 5" 0 "inactiveCodeTokenTypeIndex s" 0 0 "[]"]
  by (simp add: computeInactiveRanges_def tuples_def mod_eq_0_iff_dvd)

lemma filter_upt_Suc:
  "filter P [0..<Suc n] = (if P 0 then [0] else []) @ map Suc (filter (\<lambda>p. P (Suc p)) [0..<n])"
proof -
  have "[0..<Suc n] = 0 # map Suc [0..<n]"
    by (simp add: upt_conv_Cons map_Suc_upt del: upt_Suc)
  then show ?thesis by (simp add: filter_map comp_def del: upt_Suc)
qed

lemma decode_positions:
  "decode idx l c ts =
     map (\<lambda>p. absolute_ranges l c ts ! p)
       (filter (\<lambda>p. loose_eq (Num (typeIndex (ts ! p))) idx) [0..<length ts])"
proof (induction ts arbitrary: l c)
  case Nil
  then show ?case by simp
next
  case (Cons t ts)
  obtain dl dc len ty md where t: "t = (dl, dc, len, ty, md)" by (cases t) 
  show ?case
    unfolding t length_Cons filter_upt_Suc
    by (simp add: Cons.IH Let_def comp_def)
qed

lemma typeIndex_tuple_at: "typeIndex (tuple_at a p) = unat (a ! (5 * p + 3))"
  by (simp add: tuple_at_def)

lemma inactive_positions_tuples:
  "inactive_positions idx a =
     filter (\<lambda>p. loose_eq (Num (typeIndex (tuples a ! p))) idx) [0..<length (tuples a)]"
  unfolding inactive_positions_def tuples_def
  by (rule filter_cong) (simp_all add: typeIndex_tuple_at)

lemma replaceInactiveRanges_loop_frame:
  "length (replaceInactiveRanges_loop idx rep d n h k) = length h \<and>
   (\<forall>r. r \<noteq> d \<longrightarrow> replaceInactiveRanges_loop idx rep d n h k ! r = h ! r)"
proof (induction idx rep d n h k rule: replaceInactiveRanges_loop.induct)
  case (1 idx rep d n h k)
  show ?case
  proof (cases "5 * k < n")
    case True
    then show ?thesis
      using 1[OF True refl]
      by (subst replaceInactiveRanges_loop.simps, subst (2) replaceInactiveRanges_loop.simps)
         (auto simp: Let_def)
  next
    case False
    then show ?thesis by (simp add: replaceInactiveRanges_loop.simps)
  qed
qed

lemma replaceInactiveRanges_loop_array:
  "d < length h \<Longrightarrow> n = length (h ! d) \<Longrightarrow>
   replaceInactiveRanges_loop idx rep d n h k ! d =
     map (\<lambda>j. if j mod 5 = 3 \<and> k \<le> j div 5 \<and> loose_eq (Num (unat (h ! d ! j))) idx
               then to_uint32 rep else h ! d ! j) [0..<n]"
proof (induction idx rep d n h k rule: replaceInactiveRanges_loop.induct)
  case (1 idx rep d n h k)
  show ?case
  proof (cases "5 * k < n")
    case True
    let ?h = "if loose_eq (get (h ! d) (5 * k + 3)) idx
              then h[d := put (h ! d) (5 * k + 3) rep] else h"
    have len: "d < length ?h" "n = length (?h ! d)"
      using 1(2,3) by (auto simp: put_def)
    have step: "replaceInactiveRanges_loop idx rep d n h k = replaceInactiveRanges_loop idx rep d n ?h (Suc k)"
      using True by (subst replaceInactiveRanges_loop.simps) (simp add: Let_def)
    have ih: "replaceInactiveRanges_loop idx rep d n ?h (Suc k) ! d =
        map (\<lambda>j. if j mod 5 = 3 \<and> Suc k \<le> j div 5 \<and> loose_eq (Num (unat (?h ! d ! j))) idx
               then to_uint32 rep else ?h ! d ! j) [0..<n]"
      using 1(1)[OF True refl len] .
    have pt: "\<And>j. j < n \<Longrightarrow>
        (if j mod 5 = 3 \<and> Suc k \<le> j div 5 \<and> loose_eq (Num (unat (?h ! d ! j))) idx
               then to_uint32 rep else ?h ! d ! j) =
        (if j mod 5 = 3 \<and> k \<le> j div 5 \<and> loose_eq (Num (unat (h ! d ! j))) idx
               then to_uint32 rep else h ! d ! j)"
    proof -
      fix j assume j: "j < n"
      show "?thesis j"
      proof (cases "j = 5 * k + 3")
        case True
        then have "j mod 5 = 3" "j div 5 = k" by auto
        then show ?thesis using True j 1(2,3) by (auto simp: get_def put_def)
      next
        case False
        then have a: "?h ! d ! j = h ! d ! j" using 1(2) by (auto simp: put_def)
        have b: "j mod 5 = 3 \<Longrightarrow> j div 5 \<noteq> k" using False by presburger
        show ?thesis unfolding a using b by (auto simp: Suc_le_eq)
      qed
    qed
    show ?thesis unfolding step ih by (rule map_cong) (simp_all add: pt)
  next
    case False
    have "\<And>j. j < n \<Longrightarrow> \<not> (j mod 5 = 3 \<and> k \<le> j div 5)" using False by presburger
    then have "map (\<lambda>j. if j mod 5 = 3 \<and> k \<le> j div 5 \<and> loose_eq (Num (unat (h ! d ! j))) idx
               then to_uint32 rep else h ! d ! j) [0..<n] = map (\<lambda>j. h ! d ! j) [0..<n]"
      by (intro map_cong) auto
    then show ?thesis using False 1(3)
      by (simp add: replaceInactiveRanges_loop.simps map_nth)
  qed
qed

section \<open>Properties of full-payload processing\<close>

lemma applyInactiveRegionsToDocument_loop_eq:
  "lastInactiveRanges s doc = Some R \<Longrightarrow>
   applyInactiveRegionsToDocument_loop s doc eds =
     s\<lparr>decorations := decorations s @ map (\<lambda>e. (e, R)) (filter (\<lambda>e. document e = doc) eds)\<rparr>"
proof (induction eds arbitrary: s)
  case Nil
  then show ?case by simp
next
  case (Cons e eds)
  show ?case
  proof (cases "document e = doc")
    case True
    let ?s = "s\<lparr>decorations := decorations s @ [(e, R)]\<rparr>"
    have "lastInactiveRanges ?s doc = Some R" using Cons.prems by simp
    from Cons.IH[OF this] show ?thesis using True Cons.prems
      by (simp add: applyInactiveRegions_def)
  next
    case False
    then show ?thesis using Cons by simp
  qed
qed

lemma typed_set_fresh:
  "typed_set (h @ [replicate (length src) 0]) (length h) src 0 = Inr (h @ [src])"
  by (simp add: typed_set_def)

lemma replaceInactiveRanges_eq:
  "replaceInactiveRanges s t =
     (s\<lparr>store := store s @ [remap (inactiveCodeTokenTypeIndex s)
                              (inactiveCodeTokenTypeReplaceIndex s) (store s ! data t)]\<rparr>,
      Inr \<lparr>resultId = resultId t, data = length (store s)\<rparr>)"
proof -
  let ?src = "store s ! data t"
  let ?h2 = "store s @ [?src]"
  let ?d = "length (store s)"
  let ?L = "replaceInactiveRanges_loop (inactiveCodeTokenTypeIndex s)
              (inactiveCodeTokenTypeReplaceIndex s) ?d (length ?src) ?h2 0"
  have d: "?d < length ?h2" and n: "length ?src = length (?h2 ! ?d)" by simp_all
  have arr: "?L ! ?d = remap (inactiveCodeTokenTypeIndex s) (inactiveCodeTokenTypeReplaceIndex s) ?src"
    using replaceInactiveRanges_loop_array[OF d n, of "inactiveCodeTokenTypeIndex s"
        "inactiveCodeTokenTypeReplaceIndex s" 0]
    by (simp add: remap_def)
  have fr: "length ?L = length ?h2" "\<And>r. r \<noteq> ?d \<Longrightarrow> ?L ! r = ?h2 ! r"
    using replaceInactiveRanges_loop_frame[of "inactiveCodeTokenTypeIndex s"
        "inactiveCodeTokenTypeReplaceIndex s" ?d "length ?src" ?h2 0] by auto
  have "?L = store s @ [remap (inactiveCodeTokenTypeIndex s) (inactiveCodeTokenTypeReplaceIndex s) ?src]"
  proof (rule nth_equalityI)
    show "length ?L = length (store s @ [remap (inactiveCodeTokenTypeIndex s) (inactiveCodeTokenTypeReplaceIndex s) ?src])"
      using fr(1) by simp
  next
    fix i assume "i < length ?L"
    then have "i < Suc ?d" using fr(1) by simp
    then show "?L ! i = (store s @ [remap (inactiveCodeTokenTypeIndex s) (inactiveCodeTokenTypeReplaceIndex s) ?src]) ! i"
      using arr fr(2)[of i] by (cases "i = ?d") (auto simp: nth_append)
  qed
  then show ?thesis
    by (simp add: replaceInactiveRanges_def new_Uint32Array_def typed_set_fresh Let_def)
qed

lemma provideDocumentSemanticTokens_eq:
  "provideDocumentSemanticTokens s doc t =
     (s\<lparr>lastTokens := (lastTokens s)(doc \<mapsto> t),
        lastInactiveRanges := (lastInactiveRanges s)(doc \<mapsto> computeInactiveRanges s t),
        decorations := decorations s @
           map (\<lambda>e. (e, computeInactiveRanges s t))
             (filter (\<lambda>e. document e = doc) (visibleTextEditors s)),
        store := store s @ [remap (inactiveCodeTokenTypeIndex s)
                              (inactiveCodeTokenTypeReplaceIndex s) (store s ! data t)]\<rparr>,
      Inr \<lparr>resultId = resultId t, data = length (store s)\<rparr>)"
proof -
  let ?R = "computeInactiveRanges s t"
  let ?s2 = "s\<lparr>lastTokens := (lastTokens s)(doc \<mapsto> t),
               lastInactiveRanges := (lastInactiveRanges s)(doc \<mapsto> ?R)\<rparr>"
  have R: "computeInactiveRanges (s\<lparr>lastTokens := (lastTokens s)(doc \<mapsto> t)\<rparr>) t = ?R"
    by (simp add: computeInactiveRanges_def)
  have "lastInactiveRanges ?s2 doc = Some ?R" by simp
  from applyInactiveRegionsToDocument_loop_eq[OF this, of "visibleTextEditors s"]
  have s3: "applyInactiveRegionsToDocument ?s2 doc =
     ?s2\<lparr>decorations := decorations s @ map (\<lambda>e. (e, ?R)) (filter (\<lambda>e. document e = doc) (visibleTextEditors s))\<rparr>"
    by (simp add: applyInactiveRegionsToDocument_def)
  show ?thesis
    unfolding provideDocumentSemanticTokens_def Let_def R
    by (simp add: s3 replaceInactiveRanges_eq)
qed

section \<open>Properties of the specification's codec\<close>

lemma remap_length: "length (remap idx rep a) = length a"
  by (simp add: remap_def)

lemma remap_nth:
  "j < length a \<Longrightarrow>
   remap idx rep a ! j =
     (if j mod 5 = 3 \<and> loose_eq (Num (unat (a ! j))) idx then to_uint32 rep else a ! j)"
  by (simp add: remap_def)

lemma inactive_positions_iff:
  "p \<in> set (inactive_positions idx a) \<longleftrightarrow>
     p < length a div 5 \<and> loose_eq (Num (unat (a ! (5 * p + 3)))) idx"
  by (auto simp: inactive_positions_def)

lemma computeInactiveRanges_positions:
  assumes "length (store s ! data t) mod 5 = 0"
  shows "computeInactiveRanges s t =
     map (\<lambda>p. absolute_ranges 0 0 (tuples (store s ! data t)) ! p)
       (inactive_positions (inactiveCodeTokenTypeIndex s) (store s ! data t))"
  unfolding computeInactiveRanges_decode[OF assms] decode_positions inactive_positions_tuples ..

lemma absolute_ranges_length: "length (absolute_ranges l c ts) = length ts"
  by (induction ts arbitrary: l c) (auto simp: Let_def)

lemma inactive_positions_Undefined: "inactive_positions Undefined a = []"
  by (simp add: inactive_positions_def)

lemma remap_Undefined: "remap Undefined rep a = a"
  by (simp add: remap_def map_nth)

lemma remap_no_positions:
  assumes "length a mod 5 = 0" and "inactive_positions idx a = []"
  shows "remap idx rep a = a"
proof (rule nth_equalityI)
  show "length (remap idx rep a) = length a" by (rule remap_length)
next
  fix j assume "j < length (remap idx rep a)"
  then have j: "j < length a" by (simp add: remap_length)
  have n: "length a = 5 * (length a div 5)" using assms(1) by auto
  have d: "j div 5 < length a div 5"
    using j n less_mult_imp_div_less[of j "length a div 5" 5] by (simp add: mult.commute)
  have "j div 5 \<notin> set (inactive_positions idx a)" using assms(2) by simp
  then have "\<not> loose_eq (Num (unat (a ! (5 * (j div 5) + 3)))) idx"
    using d by (simp add: inactive_positions_iff)
  moreover have "j mod 5 = 3 \<Longrightarrow> 5 * (j div 5) + 3 = j" using mult_div_mod_eq[of 5 j] by simp
  ultimately show "remap idx rep a ! j = a ! j"
    using j by (auto simp: remap_nth)
qed

section \<open>Properties of the capability resolver\<close>

lemma initialize_loop_absent:
  "''comment'' \<notin> set ts \<Longrightarrow> initialize_loop ts i cur = cur"
  by (induction ts arbitrary: i cur) auto

lemma initialize_loop_last:
  "j < length ts \<Longrightarrow> ts ! j = ''comment'' \<Longrightarrow> ''comment'' \<notin> set (drop (Suc j) ts) \<Longrightarrow>
   initialize_loop ts i cur = Num (i + j)"
proof (induction ts arbitrary: i j cur)
  case Nil
  then show ?case by simp
next
  case (Cons t ts)
  show ?case
  proof (cases j)
    case 0
    then show ?thesis using Cons.prems by (simp add: initialize_loop_absent)
  next
    case (Suc k)
    then show ?thesis using Cons.prems Cons.IH[of k "Suc i"] by simp
  qed
qed

section \<open>Properties of the decoration applier\<close>

lemma applyInactiveRegions_frame:
  "lastInactiveRanges (applyInactiveRegions s e) = lastInactiveRanges s"
  by (simp add: applyInactiveRegions_def split: option.splits)

lemma onDidChangeVisibleTextEditors_eq:
  "onDidChangeVisibleTextEditors s editors =
     s\<lparr>decorations := decorations s @
          concat (map (\<lambda>e. case lastInactiveRanges s (document e) of
                              Some R \<Rightarrow> [(e, R)] | None \<Rightarrow> []) editors)\<rparr>"
proof (induction editors arbitrary: s)
  case Nil
  then show ?case by simp
next
  case (Cons e editors)
  show ?case
    by (simp add: Cons.IH applyInactiveRegions_frame)
       (simp add: applyInactiveRegions_def split: option.splits)
qed

section \<open>Properties of the delta reconstructor\<close>

lemma deltaLength_loop_eq:
  "deltaLength_loop h es acc = acc + length_change h es"
  by (induction es arbitrary: acc) (auto simp: insertData_def split: option.splits)

lemma edits_sorted_bounds:
  "edits_sorted r n es \<Longrightarrow> r \<le> final_readIndex r es \<and> final_readIndex r es \<le> n"
proof (induction es arbitrary: r)
  case Nil
  then show ?case by simp
next
  case (Cons e es)
  then show ?case by fastforce
qed

lemma loop_output_length:
  "edits_sorted r (length b) es \<Longrightarrow>
   int (length (loop_output h r b es)) + int (length b) - int (final_readIndex r es) =
     int (length b) - int r + length_change h es"
proof (induction es arbitrary: r)
  case Nil
  then show ?case by simp
next
  case (Cons e es)
  from Cons.prems have le: "r \<le> start e"
    and rest: "edits_sorted (start e + deleteCount e) (length b) es" by simp_all
  from edits_sorted_bounds[OF rest] have "start e + deleteCount e \<le> length b" by simp
  then have "length (take (start e - r) (drop r b)) = start e - r" by simp
  then show ?case using Cons.IH[OF rest] le by simp
qed

lemma splice_from_last_eq:
  "edits_sorted r (length b) es \<Longrightarrow>
   splice_from_last h b es = take r b @ loop_output h r b es @ drop (final_readIndex r es) b"
proof (induction es arbitrary: r)
  case Nil
  then show ?case by simp
next
  case (Cons e es)
  let ?r' = "start e + deleteCount e"
  from Cons.prems have le: "r \<le> start e"
    and rest: "edits_sorted ?r' (length b) es" by simp_all
  from edits_sorted_bounds[OF rest] have r': "?r' \<le> length b" by simp
  have ih: "splice_from_last h b es =
      take ?r' b @ loop_output h ?r' b es @ drop (final_readIndex ?r' es) b"
    by (rule Cons.IH[OF rest])
  have t: "take (start e) (splice_from_last h b es) = take (start e) b"
    unfolding ih using r' by (simp add: min_def)
  have d: "drop ?r' (splice_from_last h b es) =
      loop_output h ?r' b es @ drop (final_readIndex ?r' es) b"
    unfolding ih using r' by simp
  have "take (start e) b = take r b @ take (start e - r) (drop r b)"
    using le take_add[of r "start e - r" b] by simp
  then show ?case
    by (simp add: splice_def t d)
qed

lemma subarray_eq:
  "r + c \<le> length b \<Longrightarrow> subarray b r (r + c) = take c (drop r b)"
  by (simp add: subarray_def Let_def min_def)

lemma subarray_whole: "subarray b 0 (0 + length b) = b"
  by (simp add: subarray_def)

lemma typed_set_ok:
  "length xs + off \<le> length (h ! d) \<Longrightarrow>
   typed_set h d xs off = Inr (h[d := take off (h ! d) @ xs @ drop (off + length xs) (h ! d)])"
  by (simp add: typed_set_def)

lemma loop_output_cong:
  "\<forall>e \<in> set es. \<forall>x. edit_data e = Some x \<longrightarrow> h' ! x = h ! x \<Longrightarrow>
   loop_output h' r b es = loop_output h r b es"
  by (induction es arbitrary: r) (auto simp: insertData_def split: option.splits)

lemma write_length:
  "i + length xs \<le> length D \<Longrightarrow> length (take i D @ xs @ drop (i + length xs) D) = length D"
  by simp

lemma write_prefix:
  "i + length xs \<le> length D \<Longrightarrow>
   take (i + length xs) (take i D @ xs @ drop (i + length xs) D) = take i D @ xs"
  by simp

lemma copy_ok:
  assumes "L < length h" and "src \<noteq> L" and "r + c \<le> length (h ! src)"
    and "i + c \<le> length (h ! L)"
  shows "copy h L i src r c =
           Inr (h[L := take i (h ! L) @ take c (drop r (h ! src)) @ drop (i + c) (h ! L)])"
proof -
  have "length (take c (drop r (h ! src))) = c" using assms(3) by simp
  then show ?thesis
    unfolding copy_def subarray_eq[OF assms(3)] using assms(4)
    by (simp add: typed_set_def add.commute)
qed

lemma applyDelta_loop_step:
  assumes L: "L < length h" and src: "src \<noteq> L"
    and dat: "\<forall>x. edit_data e = Some x \<longrightarrow> x \<noteq> L"
    and le: "r \<le> start e" and bound: "start e \<le> length (h ! src)"
    and room: "i + (start e - r) + length (insertData h e) \<le> length (h ! L)"
  shows "\<exists>hb. applyDelta_loop h L src (e # es) r i =
                applyDelta_loop hb L src es (start e + deleteCount e)
                  (i + (start e - r) + length (insertData h e)) \<and>
              length hb = length h \<and> (\<forall>x. x \<noteq> L \<longrightarrow> hb ! x = h ! x) \<and>
              length (hb ! L) = length (h ! L) \<and>
              take (i + (start e - r) + length (insertData h e)) (hb ! L) =
                take i (h ! L) @ take (start e - r) (drop r (h ! src)) @ insertData h e"
proof -
  let ?B = "h ! src" and ?D = "h ! L"
  let ?c = "start e - r"
  let ?X = "take ?c (drop r ?B)"
  let ?Y = "insertData h e"
  have lx: "length ?X = ?c" using bound by simp
  define ha where "ha = h[L := take i ?D @ ?X @ drop (i + ?c) ?D]"
  have ha_len: "length ha = length h" by (simp add: ha_def)
  have ha_other: "\<And>x. x \<noteq> L \<Longrightarrow> ha ! x = h ! x" by (simp add: ha_def)
  have ha_L: "ha ! L = take i ?D @ ?X @ drop (i + length ?X) ?D"
    using L by (simp only: ha_def lx nth_list_update_eq)
  have roomX: "i + length ?X \<le> length ?D" using room unfolding lx by simp
  have ha_Llen: "length (ha ! L) = length ?D" unfolding ha_L by (rule write_length[OF roomX])
  have ha_pre: "take (i + ?c) (ha ! L) = take i ?D @ ?X"
    using write_prefix[OF roomX] unfolding ha_L[symmetric] by (simp only: lx)
  have stage1:
    "(if int (start e) - int r > 0
      then (case copy h L i src r (nat (int (start e) - int r)) of
              Inl err \<Rightarrow> Inl err
            | Inr h1 \<Rightarrow> Inr (h1, i + nat (int (start e) - int r)))
      else Inr (h, i)) = Inr (ha, i + ?c)"
  proof (cases "int (start e) - int r > 0")
    case True
    have n: "nat (int (start e) - int r) = ?c" by simp
    have "r + ?c \<le> length ?B" using le bound by simp
    moreover have "i + ?c \<le> length ?D" using room by simp
    ultimately have "copy h L i src r ?c = Inr ha"
      unfolding ha_def by (rule copy_ok[OF L src])
    then show ?thesis using True by (simp only: n if_True sum.case)
  next
    case False
    then have z: "?c = 0" by simp
    have "ha = h" unfolding ha_def z by simp
    then show ?thesis using False by (simp add: z)
  qed
  define hb where "hb = ha[L := take (i + ?c) (ha ! L) @ ?Y @
                               drop (i + ?c + length ?Y) (ha ! L)]"
  have roomY: "(i + ?c) + length ?Y \<le> length (ha ! L)"
    using room ha_Llen by simp
  have hb_len: "length hb = length h" by (simp add: hb_def ha_len)
  have hb_other: "\<And>x. x \<noteq> L \<Longrightarrow> hb ! x = h ! x" by (simp add: hb_def ha_other)
  have hb_L: "hb ! L = take (i + ?c) (ha ! L) @ ?Y @ drop (i + ?c + length ?Y) (ha ! L)"
    using L by (simp add: hb_def ha_len)
  have hb_Llen: "length (hb ! L) = length ?D"
    unfolding hb_L using write_length[OF roomY] ha_Llen by simp
  have hb_pre: "take (i + ?c + length ?Y) (hb ! L) = take i ?D @ ?X @ ?Y"
    unfolding hb_L using write_prefix[OF roomY] ha_pre by simp
  have stage2:
    "(case edit_data e of
        Some x \<Rightarrow>
          (case copy ha L (i + ?c) x 0 (length (ha ! x)) of
             Inl err \<Rightarrow> Inl err
           | Inr h2 \<Rightarrow> Inr (h2, i + ?c + length (ha ! x)))
      | None \<Rightarrow> Inr (ha, i + ?c)) = Inr (hb, i + ?c + length ?Y)"
  proof (cases "edit_data e")
    case None
    then have y: "?Y = []" by (simp add: insertData_def)
    have "hb = ha" unfolding hb_def y using roomY by simp
    then show ?thesis using None y by simp
  next
    case (Some x)
    then have x: "x \<noteq> L" using dat by simp
    have y: "?Y = ha ! x" using Some x by (simp add: insertData_def ha_other)
    have "L < length ha" using L ha_len by simp
    from copy_ok[OF this x, of 0 "length (ha ! x)" "i + ?c"] roomY
    have "copy ha L (i + ?c) x 0 (length (ha ! x)) = Inr hb"
      by (simp add: y hb_def add.assoc)
    then show ?thesis using Some by (simp add: y)
  qed
  have "applyDelta_loop h L src (e # es) r i =
          applyDelta_loop hb L src es (start e + deleteCount e) (i + ?c + length ?Y)"
    by (simp only: applyDelta_loop.simps Let_def stage1 sum.case prod.case stage2)
  then show ?thesis
    using hb_len hb_other hb_Llen hb_pre by auto
qed

lemma applyDelta_loop_correct:
  assumes "L < length h" and "src \<noteq> L"
    and "\<forall>e \<in> set es. \<forall>x. edit_data e = Some x \<longrightarrow> x \<noteq> L"
    and "edits_sorted r (length (h ! src)) es"
    and "i + length (loop_output h r (h ! src) es) \<le> length (h ! L)"
  shows "\<exists>h2. applyDelta_loop h L src es r i =
                 Inr (h2, final_readIndex r es, i + length (loop_output h r (h ! src) es)) \<and>
               length h2 = length h \<and> (\<forall>x. x \<noteq> L \<longrightarrow> h2 ! x = h ! x) \<and>
               length (h2 ! L) = length (h ! L) \<and>
               take (i + length (loop_output h r (h ! src) es)) (h2 ! L) =
                 take i (h ! L) @ loop_output h r (h ! src) es"
  using assms
proof (induction es arbitrary: h r i)
  case Nil
  then show ?case by simp
next
  case (Cons e es)
  let ?B = "h ! src"
  let ?r' = "start e + deleteCount e"
  let ?c = "start e - r"
  let ?Y = "insertData h e"
  let ?i' = "i + ?c + length ?Y"
  from Cons.prems(4) have le: "r \<le> start e"
    and rest: "edits_sorted ?r' (length ?B) es" by simp_all
  from edits_sorted_bounds[OF rest] have bound: "start e \<le> length ?B" by simp
  have lx: "length (take ?c (drop r ?B)) = ?c" using bound by simp
  have out: "length (loop_output h r ?B (e # es)) = ?c + length ?Y + length (loop_output h ?r' ?B es)"
    using lx by simp
  have dat: "\<forall>x. edit_data e = Some x \<longrightarrow> x \<noteq> L" using Cons.prems(3) by simp
  have room: "?i' \<le> length (h ! L)" using Cons.prems(5) out by simp
  from applyDelta_loop_step[OF Cons.prems(1,2) dat le bound room, of es]
  obtain hb where step: "applyDelta_loop h L src (e # es) r i = applyDelta_loop hb L src es ?r' ?i'"
    and hb_len: "length hb = length h" and hb_other: "\<forall>x. x \<noteq> L \<longrightarrow> hb ! x = h ! x"
    and hb_Llen: "length (hb ! L) = length (h ! L)"
    and hb_pre: "take ?i' (hb ! L) = take i (h ! L) @ take ?c (drop r ?B) @ ?Y"
    by blast
  have B: "hb ! src = ?B" using hb_other Cons.prems(2) by simp
  have cong: "loop_output hb ?r' ?B es = loop_output h ?r' ?B es"
    by (rule loop_output_cong) (use hb_other Cons.prems(3) in auto)
  have p1: "L < length hb" using Cons.prems(1) hb_len by simp
  have p3: "\<forall>e \<in> set es. \<forall>x. edit_data e = Some x \<longrightarrow> x \<noteq> L" using Cons.prems(3) by simp
  have p4: "edits_sorted ?r' (length (hb ! src)) es" using rest B by simp
  have p5: "?i' + length (loop_output hb ?r' (hb ! src) es) \<le> length (hb ! L)"
    using Cons.prems(5) out by (simp add: B cong hb_Llen)
  from Cons.IH[OF p1 Cons.prems(2) p3 p4 p5]
  obtain h2 where res: "applyDelta_loop hb L src es ?r' ?i' =
        Inr (h2, final_readIndex ?r' es, ?i' + length (loop_output h ?r' ?B es))"
    and h2_len: "length h2 = length hb" and h2_other: "\<forall>x. x \<noteq> L \<longrightarrow> h2 ! x = hb ! x"
    and h2_Llen: "length (h2 ! L) = length (hb ! L)"
    and h2_pre: "take (?i' + length (loop_output h ?r' ?B es)) (h2 ! L) =
                   take ?i' (hb ! L) @ loop_output h ?r' ?B es"
    unfolding B cong by blast
  have idx: "i + length (loop_output h r ?B (e # es)) = ?i' + length (loop_output h ?r' ?B es)"
    using out by simp
  show ?case
    unfolding idx step res
    using h2_len hb_len h2_other hb_other h2_Llen hb_Llen h2_pre hb_pre
    by simp
qed

lemma edits_allocated_iff:
  "edits_allocated h es \<longleftrightarrow> (\<forall>e \<in> set es. \<forall>x. edit_data e = Some x \<longrightarrow> x < length h)"
  by (induction es) (auto split: option.splits)

lemma applyDelta_eq:
  assumes src: "data prev < length h"
    and alloc: "edits_allocated h (edits delta)"
    and sorted: "edits_sorted 0 (length (h ! data prev)) (edits delta)"
  shows "applyDelta h prev delta =
           Inr (h @ [splice_from_last h (h ! data prev) (edits delta)],
                \<lparr>resultId = edits_resultId delta, data = length h\<rparr>)"
proof -
  let ?es = "edits delta" and ?B = "h ! data prev" and ?L = "length h"
  let ?out = "loop_output h 0 ?B ?es"
  let ?fin = "final_readIndex 0 ?es"
  let ?N = "int (length ?B) + deltaLength_loop h ?es 0"
  have fin: "?fin \<le> length ?B" using edits_sorted_bounds[OF sorted] by simp
  have N: "?N = int (length ?out + (length ?B - ?fin))"
    using loop_output_length[OF sorted, of h] fin by (simp add: deltaLength_loop_eq)
  define h1 where "h1 = h @ [replicate (length ?out + (length ?B - ?fin)) 0]"
  have new: "new_Uint32Array h ?N = Inr (?L, h1)"
    unfolding N by (simp add: new_Uint32Array_def h1_def)
  have h1_old: "\<And>x. x < ?L \<Longrightarrow> h1 ! x = h ! x" by (simp add: h1_def nth_append)
  have h1_L: "h1 ! ?L = replicate (length ?out + (length ?B - ?fin)) 0" by (simp add: h1_def)
  have h1_B: "h1 ! data prev = ?B" using src by (rule h1_old)
  have notL: "\<forall>e \<in> set ?es. \<forall>x. edit_data e = Some x \<longrightarrow> x \<noteq> ?L"
    using alloc by (auto simp: edits_allocated_iff)
  have cong: "loop_output h1 0 ?B ?es = ?out"
    by (rule loop_output_cong) (use alloc h1_old in \<open>auto simp: edits_allocated_iff\<close>)
  have p1: "?L < length h1" by (simp add: h1_def)
  have p2: "data prev \<noteq> ?L" using src by simp
  have p4: "edits_sorted 0 (length (h1 ! data prev)) ?es" using sorted by (simp add: h1_B)
  have p5: "0 + length (loop_output h1 0 (h1 ! data prev) ?es) \<le> length (h1 ! ?L)"
    by (simp add: h1_B cong h1_L)
  from applyDelta_loop_correct[OF p1 p2 notL p4 p5]
  obtain h2 where loop: "applyDelta_loop h1 ?L (data prev) ?es 0 0 = Inr (h2, ?fin, length ?out)"
    and h2_len: "length h2 = length h1"
    and h2_other: "\<forall>x. x \<noteq> ?L \<longrightarrow> h2 ! x = h1 ! x"
    and h2_Llen: "length (h2 ! ?L) = length ?out + (length ?B - ?fin)"
    and h2_pre: "take (length ?out) (h2 ! ?L) = ?out"
    unfolding h1_B cong h1_L by auto
  have h2_B: "h2 ! data prev = ?B" using h2_other p2 h1_B by simp
  define h3 where "h3 = h2[?L := ?out @ drop ?fin ?B]"
  have tail: "(if ?fin < length (h2 ! data prev)
               then copy h2 ?L (length ?out) (data prev) ?fin (length (h2 ! data prev) - ?fin)
               else Inr h2) = Inr h3"
  proof (cases "?fin < length ?B")
    case True
    have a: "?L < length h2" using h2_len p1 by simp
    have b: "?fin + (length ?B - ?fin) \<le> length (h2 ! data prev)" using fin h2_B by simp
    have c: "length ?out + (length ?B - ?fin) \<le> length (h2 ! ?L)" using h2_Llen by simp
    from copy_ok[OF a p2 b c] show ?thesis
      using True h2_pre h2_Llen by (simp add: h2_B h3_def)
  next
    case False
    then have "?fin = length ?B" using fin by simp
    then have "h2 ! ?L = ?out" "drop ?fin ?B = []" using h2_pre h2_Llen by simp_all
    then have "h3 = h2" using list_update_id[of h2 ?L] by (simp add: h3_def)
    then show ?thesis using False by (simp add: h2_B)
  qed
  have spl: "splice_from_last h ?B ?es = ?out @ drop ?fin ?B"
    using splice_from_last_eq[OF sorted, of h] by simp
  have "h3 = h @ [splice_from_last h ?B ?es]"
  proof (rule nth_equalityI)
    show "length h3 = length (h @ [splice_from_last h ?B ?es])"
      by (simp add: h3_def h2_len h1_def)
  next
    fix x assume "x < length h3"
    then have x: "x < Suc ?L" by (simp add: h3_def h2_len h1_def)
    show "h3 ! x = (h @ [splice_from_last h ?B ?es]) ! x"
    proof (cases "x = ?L")
      case True
      then show ?thesis using h2_len p1 by (simp add: h3_def spl)
    next
      case False
      then have "x < ?L" using x by simp
      then show ?thesis using False h2_other h1_old by (simp add: h3_def nth_append)
    qed
  qed
  then show ?thesis
    by (simp add: applyDelta_def Let_def new loop tail)
qed

lemma applyDelta_resultId:
  "applyDelta h prev delta = Inr (h', t) \<Longrightarrow> resultId t = edits_resultId delta"
  by (auto simp: applyDelta_def Let_def split: sum.splits prod.splits if_splits)

section \<open>Properties of delta-payload processing\<close>

lemma provideDocumentSemanticTokensEdits_Full:
  "provideDocumentSemanticTokensEdits s doc previousResultId (Full t) =
     (fst (provideDocumentSemanticTokens s doc t),
      Inr (Full \<lparr>resultId = resultId t, data = length (store s)\<rparr>))"
  by (simp add: provideDocumentSemanticTokensEdits_def provideDocumentSemanticTokens_eq)

lemma provideDocumentSemanticTokensEdits_hit:
  assumes "lastTokens s doc = Some previousTokens"
    and "resultId previousTokens = Some previousResultId"
  shows "provideDocumentSemanticTokensEdits s doc previousResultId (Delta d) =
     (case applyDelta (store s) previousTokens d of
        Inl e \<Rightarrow> (s, Inl e)
      | Inr (h, t) \<Rightarrow>
          (fst (provideDocumentSemanticTokens (s\<lparr>store := h\<rparr>) doc t),
           Inr (Full \<lparr>resultId = resultId t, data = length h\<rparr>)))"
  using assms
  by (simp add: provideDocumentSemanticTokensEdits_def provideDocumentSemanticTokens_eq
      split: sum.splits prod.splits)

lemma provideDocumentSemanticTokens_cache:
  "lastTokens (fst (provideDocumentSemanticTokens s doc t)) doc = Some t"
  by (simp add: provideDocumentSemanticTokens_eq)

lemma processed_payload_cached:
  assumes "snd (provideDocumentSemanticTokensEdits s doc previousResultId tokens) = Inr (Full out)"
  shows "\<exists>c. lastTokens (fst (provideDocumentSemanticTokensEdits s doc previousResultId tokens)) doc = Some c \<and>
             resultId c = payload_resultId tokens \<and> resultId out = payload_resultId tokens"
proof (cases tokens)
  case (Full t)
  then show ?thesis using assms
    by (auto simp: provideDocumentSemanticTokensEdits_Full provideDocumentSemanticTokens_cache)
next
  case (Delta d)
  show ?thesis
  proof (cases "lastTokens s doc")
    case None
    then show ?thesis using assms Delta by (simp add: provideDocumentSemanticTokensEdits_def)
  next
    case (Some p)
    show ?thesis
    proof (cases "resultId p = Some previousResultId")
      case False
      then show ?thesis using assms Delta Some by (simp add: provideDocumentSemanticTokensEdits_def)
    next
      case True
      show ?thesis
      proof (cases "applyDelta (store s) p d")
        case (Inl e)
        then show ?thesis using assms Delta
          by (simp add: provideDocumentSemanticTokensEdits_hit[OF Some True])
      next
        case (Inr ht)
        obtain h t where ht: "ht = (h, t)" by (cases ht)
        have "resultId t = edits_resultId d"
          using applyDelta_resultId Inr ht by blast
        then show ?thesis using assms Delta Inr ht
          by (auto simp: provideDocumentSemanticTokensEdits_hit[OF Some True]
              provideDocumentSemanticTokens_cache)
      qed
    qed
  qed
qed

lemma cache_hit_not_fallback:
  assumes "cache_hit s doc r"
  shows "snd (provideDocumentSemanticTokensEdits s doc r (Delta next)) \<noteq> Inr (Delta next)"
proof -
  from assms obtain p where p: "lastTokens s doc = Some p" "resultId p = Some r"
    by (auto simp: cache_hit_def split: option.splits)
  show ?thesis
    unfolding provideDocumentSemanticTokensEdits_hit[OF p]
    by (auto split: sum.splits prod.splits)
qed

section \<open>Facts about the concrete inputs\<close>

lemma example_state_simps:
  "inactiveCodeTokenTypeIndex example_state = Num 7"
  "inactiveCodeTokenTypeReplaceIndex example_state = Num 8"
  "store example_state = [example_buffer, short_buffer, plain_buffer, insert_buffer]"
  "lastTokens example_state = Map.empty"
  "lastInactiveRanges example_state = Map.empty"
  "visibleTextEditors example_state = [example_editor]"
  "decorations example_state = []"
  by (simp_all add: example_state_def initialize_def initial_state_def example_legend_def)

lemma tuples_example_buffer:
  "tuples example_buffer = [(0, 5, 3, 7, 0), (0, 3, 4, 7, 0), (1, 2, 6, 7, 0)]"
  by (simp add: tuples_def tuple_at_def example_buffer_def upt_rec)

lemma decode_example:
  "decode (Num 7) 0 0 [(0, 5, 3, 7, 0), (0, 3, 4, 7, 0), (1, 2, 6, 7, 0)] =
     [range_of 0 5 3, range_of 0 8 4, range_of 1 2 6]"
  by simp

lemma inactive_positions_example:
  "inactive_positions (Num 7) example_buffer = [0, 1, 2]"
  by (simp add: inactive_positions_def example_buffer_def upt_rec)

lemma tuples_plain_buffer:
  "tuples plain_buffer = [(0, 5, 3, 2, 0), (1, 2, 6, 4, 0)]"
  by (simp add: tuples_def tuple_at_def plain_buffer_def upt_rec)

lemma cached_state_simps:
  "inactiveCodeTokenTypeIndex cached_state = Num 7"
  "inactiveCodeTokenTypeReplaceIndex cached_state = Num 8"
  "lastTokens cached_state = [0 \<mapsto> example_tokens]"
  "lastInactiveRanges cached_state = [0 \<mapsto> [range_of 0 5 3, range_of 0 8 4, range_of 1 2 6]]"
  "visibleTextEditors cached_state = [example_editor]"
  "decorations cached_state = [(example_editor, [range_of 0 5 3, range_of 0 8 4, range_of 1 2 6])]"
  "store cached_state = [example_buffer, short_buffer, plain_buffer, insert_buffer,
                         [0, 5, 3, 8, 0,  0, 3, 4, 8, 0,  1, 2, 6, 8, 0]]"
proof -
  have len: "length (store example_state ! data example_tokens) mod 5 = 0"
    by (simp add: example_state_simps example_tokens_def example_buffer_def)
  have c: "computeInactiveRanges example_state example_tokens =
      [range_of 0 5 3, range_of 0 8 4, range_of 1 2 6]"
    using computeInactiveRanges_decode[OF len]
    by (simp add: example_state_simps example_tokens_def tuples_example_buffer decode_example)
  have r: "remap (Num 7) (Num 8) example_buffer = [0, 5, 3, 8, 0,  0, 3, 4, 8, 0,  1, 2, 6, 8, 0]"
    by (simp add: remap_def example_buffer_def upt_rec)
  have d: "data example_tokens = 0" by (simp add: example_tokens_def)
  show "inactiveCodeTokenTypeIndex cached_state = Num 7"
    "inactiveCodeTokenTypeReplaceIndex cached_state = Num 8"
    "lastTokens cached_state = [0 \<mapsto> example_tokens]"
    "lastInactiveRanges cached_state = [0 \<mapsto> [range_of 0 5 3, range_of 0 8 4, range_of 1 2 6]]"
    "visibleTextEditors cached_state = [example_editor]"
    "decorations cached_state = [(example_editor, [range_of 0 5 3, range_of 0 8 4, range_of 1 2 6])]"
    "store cached_state = [example_buffer, short_buffer, plain_buffer, insert_buffer,
                         [0, 5, 3, 8, 0,  0, 3, 4, 8, 0,  1, 2, 6, 8, 0]]"
    by (simp_all add: cached_state_def provideDocumentSemanticTokens_eq c example_state_simps
        example_editor_def r d)
qed

lemma computeInactiveRanges_loop_short:
  "computeInactiveRanges_loop (Num 7) short_buffer 0 (Num 0) (Num 0) [] = [range_of 0 5 3]"
  by code_simp

lemma remap_short_buffer:
  "remap (Num 7) (Num 8) short_buffer = [0, 5, 3, 8, 0,  0, 3]"
  by (simp add: remap_def short_buffer_def upt_rec)

lemma computeInactiveRanges_short:
  "computeInactiveRanges cached_state short_tokens = [range_of 0 5 3]"
  by (simp add: computeInactiveRanges_def cached_state_simps short_tokens_def
      computeInactiveRanges_loop_short)

lemma example_delta_sorted:
  "edits_sorted 0 (length example_buffer) (edits example_delta)"
  "edits_allocated [example_buffer, short_buffer, plain_buffer, insert_buffer] (edits example_delta)"
  by (simp_all add: example_delta_def example_buffer_def)

lemma applyDelta_example:
  "applyDelta [example_buffer, short_buffer, plain_buffer, insert_buffer] example_tokens example_delta =
     Inr ([example_buffer, short_buffer, plain_buffer, insert_buffer,
           [2, 1, 4, 7, 0,  0, 5, 3, 7, 0,  1, 2, 6, 7, 0]],
          \<lparr>resultId = Some ''r4'', data = 4\<rparr>)"
  by code_simp

lemma splice_in_order_example:
  "splice_in_order [example_buffer, short_buffer, plain_buffer, insert_buffer] example_buffer
     (edits example_delta) = [2, 1, 4, 7, 0,  0, 3, 4, 7, 0,  1, 2, 6, 7, 0]"
  by code_simp

lemma splice_from_last_example:
  "splice_from_last [example_buffer, short_buffer, plain_buffer, insert_buffer] example_buffer
     (edits example_delta) = [2, 1, 4, 7, 0,  0, 5, 3, 7, 0,  1, 2, 6, 7, 0]"
  by code_simp

lemma delta_on_cached_state:
  "snd (provideDocumentSemanticTokensEdits cached_state 0 ''r1'' (Delta example_delta)) =
     Inr (Full \<lparr>resultId = Some ''r4'', data = 6\<rparr>)"
proof -
  have p: "lastTokens cached_state 0 = Some example_tokens" "resultId example_tokens = Some ''r1''"
    by (simp_all add: cached_state_simps example_tokens_def)
  have a: "data example_tokens < length (store cached_state)"
    by (simp add: cached_state_simps example_tokens_def)
  have b: "edits_allocated (store cached_state) (edits example_delta)"
    by (simp add: cached_state_simps example_delta_def)
  have c: "edits_sorted 0 (length (store cached_state ! data example_tokens)) (edits example_delta)"
    by (simp add: cached_state_simps example_tokens_def example_delta_sorted)
  show ?thesis
    unfolding provideDocumentSemanticTokensEdits_hit[OF p] applyDelta_eq[OF a b c]
    by (simp add: cached_state_simps example_delta_def)
qed

section \<open>The claims\<close>

text \<open>
  C1, as the code has it. The claim compares \<open>applyDelta\<close> with the buffer obtained by
  performing the edits one after the other, first edit first, each as a splice of the
  sequence the earlier edits have left (\<open>splice_in_order\<close>). That fails as soon as an
  edit that changes the length is followed by another one: \<open>applyDelta\<close> reads the start
  of every edit as an offset into the previous buffer, the mutated sequence has moved.
  The first theorem shows it on the buffer of the decoding example with a delta that
  inserts one token run at offset 0 and deletes the five integers at offset 5.

  What holds is the second theorem. When every edit starts at or after the end (start plus
  delete count) of the edit before it and the last edit ends inside the previous
  buffer \<open>B\<close>, \<open>applyDelta\<close> returns, and the buffer it returns is the one obtained by
  performing the edits as splices of \<open>B\<close> from the last edit to the first, so that the
  start of each edit is an offset into \<open>B\<close> itself; its length is the length of \<open>B\<close> plus
  the sum over the edits of the inserted length minus the delete count; it carries the
  result id of the delta; it is a new array and the arrays allocated before are as they
  were. The length of \<open>B\<close> need not be a multiple of 5 for this.
\<close>

theorem applyDelta_splice_in_order_counterexample:
  "length ([example_buffer, short_buffer, plain_buffer, insert_buffer] ! data example_tokens) mod 5 = 0 \<and>
   edits_sorted 0 (length ([example_buffer, short_buffer, plain_buffer, insert_buffer] ! data example_tokens))
     (edits example_delta) \<and>
   applyDelta [example_buffer, short_buffer, plain_buffer, insert_buffer] example_tokens example_delta =
     Inr ([example_buffer, short_buffer, plain_buffer, insert_buffer,
           [2, 1, 4, 7, 0,  0, 5, 3, 7, 0,  1, 2, 6, 7, 0]],
          \<lparr>resultId = Some ''r4'', data = 4\<rparr>) \<and>
   splice_in_order [example_buffer, short_buffer, plain_buffer, insert_buffer]
     ([example_buffer, short_buffer, plain_buffer, insert_buffer] ! data example_tokens)
     (edits example_delta) = [2, 1, 4, 7, 0,  0, 3, 4, 7, 0,  1, 2, 6, 7, 0] \<and>
   [2, 1, 4, 7, 0,  0, 5, 3, 7, 0,  1, 2, 6, 7, 0] \<noteq>
     ([2, 1, 4, 7, 0,  0, 3, 4, 7, 0,  1, 2, 6, 7, 0] :: u32 list)"
proof -
  have d: "[example_buffer, short_buffer, plain_buffer, insert_buffer] ! data example_tokens = example_buffer"
    by (simp add: example_tokens_def)
  have l: "length example_buffer mod 5 = 0" by (simp add: example_buffer_def)
  show ?thesis
    unfolding d using l example_delta_sorted(1) applyDelta_example splice_in_order_example
    by simp
qed

theorem applyDelta_splices_from_last:
  assumes "data prev < length h"
    and "edits_allocated h (edits delta)"
    and "edits_sorted 0 (length (h ! data prev)) (edits delta)"
  shows "case applyDelta h prev delta of
           Inl e \<Rightarrow> False
         | Inr (h', out) \<Rightarrow>
             h' ! data out = splice_from_last h (h ! data prev) (edits delta) \<and>
             int (length (h' ! data out)) =
               int (length (h ! data prev)) + length_change h (edits delta) \<and>
             resultId out = edits_resultId delta \<and>
             data out = length h \<and> take (length h) h' = h"
proof -
  have "int (length (splice_from_last h (h ! data prev) (edits delta))) =
          int (length (h ! data prev)) + length_change h (edits delta)"
    using loop_output_length[OF assms(3), of h] edits_sorted_bounds[OF assms(3)]
    by (simp add: splice_from_last_eq[OF assms(3)])
  then show ?thesis by (simp add: applyDelta_eq[OF assms])
qed

theorem applyDelta_splices_from_last_witness:
  "data example_tokens < length [example_buffer, short_buffer, plain_buffer, insert_buffer] \<and>
   edits_allocated [example_buffer, short_buffer, plain_buffer, insert_buffer] (edits example_delta) \<and>
   edits_sorted 0 (length ([example_buffer, short_buffer, plain_buffer, insert_buffer] ! data example_tokens))
     (edits example_delta) \<and>
   (case applyDelta [example_buffer, short_buffer, plain_buffer, insert_buffer] example_tokens example_delta of
      Inl e \<Rightarrow> False
    | Inr (h', out) \<Rightarrow>
        h' ! data out = [2, 1, 4, 7, 0,  0, 5, 3, 7, 0,  1, 2, 6, 7, 0] \<and>
        int (length (h' ! data out)) = 15 + (5 - 0 + (0 - 5 + 0)) \<and>
        resultId out = Some ''r4'' \<and> data out = 4)"
proof -
  let ?h = "[example_buffer, short_buffer, plain_buffer, insert_buffer]"
  have d: "?h ! data example_tokens = example_buffer"
    by (simp add: example_tokens_def)
  have a: "data example_tokens < length ?h" by (simp add: example_tokens_def)
  have c: "edits_sorted 0 (length (?h ! data example_tokens)) (edits example_delta)"
    unfolding d by (rule example_delta_sorted)
  have lc: "length_change ?h (edits example_delta) = 5 - 0 + (0 - 5 + 0)"
    by (simp add: example_delta_def insertData_def insert_buffer_def)
  have r: "edits_resultId example_delta = Some ''r4''" by (simp add: example_delta_def)
  have len: "int (length example_buffer) = 15" by (simp add: example_buffer_def)
  have "case applyDelta ?h example_tokens example_delta of
      Inl e \<Rightarrow> False
    | Inr (h', out) \<Rightarrow>
        h' ! data out = [2, 1, 4, 7, 0,  0, 5, 3, 7, 0,  1, 2, 6, 7, 0] \<and>
        int (length (h' ! data out)) = 15 + (5 - 0 + (0 - 5 + 0)) \<and>
        resultId out = Some ''r4'' \<and> data out = 4"
    using applyDelta_splices_from_last[OF a example_delta_sorted(2) c,
        unfolded d splice_from_last_example lc r len]
    by (auto split: sum.splits prod.splits)
  then show ?thesis using a example_delta_sorted(2) c by blast
qed

text \<open>
  C2. For a buffer whose length is a multiple of 5, \<open>computeInactiveRanges\<close> is the decoding
  of the specification: it walks the 5-tuples in order with running line and start
  character accumulators that start at 0, the absolute line of a tuple is the running
  line plus \<open>deltaLine\<close>, its absolute start character is \<open>deltaChar\<close> when \<open>deltaLine\<close> is
  not 0 and the running start character plus \<open>deltaChar\<close> otherwise, and the accumulators
  are updated for every tuple (this is the function \<open>decode\<close>). In particular the buffer
  \<open>[0,5,3,7,0, 0,3,4,7,0, 1,2,6,7,0]\<close> with inactive index 7 gives the three ranges
  (0,5)-(0,8), (0,8)-(0,12) and (1,2)-(1,8).
\<close>

theorem computeInactiveRanges_decodes_relative_offsets:
  assumes "length (store s ! data t) mod 5 = 0"
  shows "computeInactiveRanges s t =
           decode (inactiveCodeTokenTypeIndex s) 0 0 (tuples (store s ! data t)) \<and>
         (inactiveCodeTokenTypeIndex s = Num 7 \<and> store s ! data t = example_buffer \<longrightarrow>
            computeInactiveRanges s t = [range_of 0 5 3, range_of 0 8 4, range_of 1 2 6])"
  using computeInactiveRanges_decode[OF assms]
  by (simp add: tuples_example_buffer)

theorem computeInactiveRanges_decodes_relative_offsets_witness:
  "length (store example_state ! data example_tokens) mod 5 = 0 \<and>
   inactiveCodeTokenTypeIndex example_state = Num 7 \<and>
   store example_state ! data example_tokens = [0, 5, 3, 7, 0,  0, 3, 4, 7, 0,  1, 2, 6, 7, 0] \<and>
   computeInactiveRanges example_state example_tokens =
     [\<lparr>start_line = Num 0, start_character = Num 5, end_line = Num 0, end_character = Num 8\<rparr>,
      \<lparr>start_line = Num 0, start_character = Num 8, end_line = Num 0, end_character = Num 12\<rparr>,
      \<lparr>start_line = Num 1, start_character = Num 2, end_line = Num 1, end_character = Num 8\<rparr>]"
proof -
  have len: "length (store example_state ! data example_tokens) mod 5 = 0"
    by (simp add: example_state_simps example_tokens_def example_buffer_def)
  show ?thesis
    using computeInactiveRanges_decodes_relative_offsets[OF len, THEN conjunct2]
    by (simp add: example_state_simps example_tokens_def example_buffer_def range_of_def)
qed

text \<open>
  C3. For a buffer \<open>B\<close> whose length is a multiple of 5, the ranges that
  \<open>computeInactiveRanges\<close> emits are, in order, the absolute ranges of exactly the tuple
  positions whose type index in \<open>B\<close> equals the resolved inactive index
  (\<open>inactive_positions\<close>). \<open>replaceInactiveRanges\<close> returns a buffer of the same length
  that carries the sentinel in the type index field at each of those positions, and
  every other integer of it equals the corresponding integer of \<open>B\<close>. Hence a tuple whose
  type index is not the sentinel in \<open>B\<close> and is the sentinel in the result is at one of
  those positions. (A type index of \<open>B\<close> that already has the value of the sentinel,
  which no index into the legend has, is kept like every other integer.)
\<close>

theorem decode_and_remap_agree:
  assumes "length (store s ! data t) mod 5 = 0"
  shows "computeInactiveRanges s t =
           map (\<lambda>p. absolute_ranges 0 0 (tuples (store s ! data t)) ! p)
             (inactive_positions (inactiveCodeTokenTypeIndex s) (store s ! data t)) \<and>
         (case replaceInactiveRanges s t of
            (s', Inl e) \<Rightarrow> False
          | (s', Inr out) \<Rightarrow>
              length (store s' ! data out) = length (store s ! data t) \<and>
              (p \<in> set (inactive_positions (inactiveCodeTokenTypeIndex s) (store s ! data t)) \<longrightarrow>
                 store s' ! data out ! (5 * p + 3) =
                   to_uint32 (inactiveCodeTokenTypeReplaceIndex s)) \<and>
              (j < length (store s ! data t) \<and>
               \<not> (j mod 5 = 3 \<and>
                  j div 5 \<in> set (inactive_positions (inactiveCodeTokenTypeIndex s) (store s ! data t))) \<longrightarrow>
                 store s' ! data out ! j = store s ! data t ! j) \<and>
              (q < length (store s ! data t) div 5 \<and>
               store s ! data t ! (5 * q + 3) \<noteq> to_uint32 (inactiveCodeTokenTypeReplaceIndex s) \<and>
               store s' ! data out ! (5 * q + 3) = to_uint32 (inactiveCodeTokenTypeReplaceIndex s) \<longrightarrow>
                 q \<in> set (inactive_positions (inactiveCodeTokenTypeIndex s) (store s ! data t))))"
proof -
  let ?b = "store s ! data t"
  let ?idx = "inactiveCodeTokenTypeIndex s"
  have n: "length ?b = 5 * (length ?b div 5)" using assms by auto
  have a: "p \<in> set (inactive_positions ?idx ?b) \<Longrightarrow>
        remap ?idx (inactiveCodeTokenTypeReplaceIndex s) ?b ! (5 * p + 3) =
          to_uint32 (inactiveCodeTokenTypeReplaceIndex s)"
  proof -
    assume p: "p \<in> set (inactive_positions ?idx ?b)"
    then have "5 * p + 3 < length ?b" using n by (auto simp: inactive_positions_iff)
    moreover have "(5 * p + 3) mod 5 = 3" by simp
    ultimately show ?thesis using p by (simp add: remap_nth inactive_positions_iff)
  qed
  have b: "j < length ?b \<Longrightarrow>
        \<not> (j mod 5 = 3 \<and> j div 5 \<in> set (inactive_positions ?idx ?b)) \<Longrightarrow>
        remap ?idx (inactiveCodeTokenTypeReplaceIndex s) ?b ! j = ?b ! j"
  proof -
    assume j: "j < length ?b" and nj: "\<not> (j mod 5 = 3 \<and> j div 5 \<in> set (inactive_positions ?idx ?b))"
    have "j mod 5 = 3 \<Longrightarrow> 5 * (j div 5) + 3 = j" using mult_div_mod_eq[of 5 j] by simp
    moreover have "j div 5 < length ?b div 5"
      using j n less_mult_imp_div_less[of j "length ?b div 5" 5] by (simp add: mult.commute)
    ultimately show ?thesis using j nj by (auto simp: remap_nth inactive_positions_iff)
  qed
  have c: "q < length ?b div 5 \<Longrightarrow>
        ?b ! (5 * q + 3) \<noteq> to_uint32 (inactiveCodeTokenTypeReplaceIndex s) \<Longrightarrow>
        remap ?idx (inactiveCodeTokenTypeReplaceIndex s) ?b ! (5 * q + 3) =
          to_uint32 (inactiveCodeTokenTypeReplaceIndex s) \<Longrightarrow>
        q \<in> set (inactive_positions ?idx ?b)"
  proof -
    assume q: "q < length ?b div 5"
      and ne: "?b ! (5 * q + 3) \<noteq> to_uint32 (inactiveCodeTokenTypeReplaceIndex s)"
      and eq: "remap ?idx (inactiveCodeTokenTypeReplaceIndex s) ?b ! (5 * q + 3) =
          to_uint32 (inactiveCodeTokenTypeReplaceIndex s)"
    have "5 * q + 3 < length ?b" using q n by linarith
    then show ?thesis using ne eq q by (auto simp: remap_nth inactive_positions_iff split: if_splits)
  qed
  show ?thesis
    unfolding replaceInactiveRanges_eq
    using c by (simp add: remap_length computeInactiveRanges_positions[OF assms] a b)
qed

theorem decode_and_remap_agree_witness:
  "length (store example_state ! data example_tokens) mod 5 = 0 \<and>
   (1::nat) \<in> set (inactive_positions (inactiveCodeTokenTypeIndex example_state)
                 (store example_state ! data example_tokens)) \<and>
   (4::nat) < length (store example_state ! data example_tokens) \<and>
   \<not> ((4::nat) mod 5 = 3 \<and> (4::nat) div 5 \<in> set (inactive_positions (inactiveCodeTokenTypeIndex example_state)
                 (store example_state ! data example_tokens))) \<and>
   (2::nat) < length (store example_state ! data example_tokens) div 5 \<and>
   store example_state ! data example_tokens ! (5 * 2 + 3) \<noteq>
     to_uint32 (inactiveCodeTokenTypeReplaceIndex example_state) \<and>
   computeInactiveRanges example_state example_tokens =
     [range_of 0 5 3, range_of 0 8 4, range_of 1 2 6] \<and>
   store (fst (replaceInactiveRanges example_state example_tokens)) ! 4 =
     [0, 5, 3, 8, 0,  0, 3, 4, 8, 0,  1, 2, 6, 8, 0]"
proof -
  have q: "(2::nat) < length (store example_state ! data example_tokens) div 5"
    "store example_state ! data example_tokens ! (5 * 2 + 3) \<noteq>
       to_uint32 (inactiveCodeTokenTypeReplaceIndex example_state)"
    by (simp_all add: example_state_simps example_tokens_def example_buffer_def)
  have len: "length (store example_state ! data example_tokens) mod 5 = 0"
    by (simp add: example_state_simps example_tokens_def example_buffer_def)
  have r: "store (fst (replaceInactiveRanges example_state example_tokens)) ! 4 =
     [0, 5, 3, 8, 0,  0, 3, 4, 8, 0,  1, 2, 6, 8, 0]"
    by (simp add: replaceInactiveRanges_eq example_state_simps example_tokens_def remap_def
        example_buffer_def upt_rec)
  have p: "(1::nat) \<in> set (inactive_positions (inactiveCodeTokenTypeIndex example_state)
                 (store example_state ! data example_tokens))"
    by (simp add: example_state_simps example_tokens_def inactive_positions_example)
  have j: "(4::nat) < length (store example_state ! data example_tokens)"
    "\<not> ((4::nat) mod 5 = 3 \<and> (4::nat) div 5 \<in> set (inactive_positions (inactiveCodeTokenTypeIndex example_state)
                 (store example_state ! data example_tokens)))"
    by (simp_all add: example_state_simps example_tokens_def example_buffer_def)
  have c: "computeInactiveRanges example_state example_tokens =
     [range_of 0 5 3, range_of 0 8 4, range_of 1 2 6]"
    using decode_and_remap_agree[OF len, THEN conjunct1]
    by (simp add: example_state_simps example_tokens_def inactive_positions_example
        tuples_example_buffer range_of_def)
  show ?thesis by (intro conjI len p j q c r)
qed

text \<open>
  C4. When no buffer is cached for the document, or the result id of the cached buffer
  differs from the previous result id supplied, \<open>provideDocumentSemanticTokensEdits\<close>
  returns the delta it was given and the state it was called in: the cached buffer
  and the cached ranges of every document are unchanged.
\<close>

theorem cache_miss_returns_delta_unchanged:
  assumes "lastTokens s doc = None \<or>
           (\<exists>previousTokens. lastTokens s doc = Some previousTokens \<and>
              resultId previousTokens \<noteq> Some previousResultId)"
  shows "provideDocumentSemanticTokensEdits s doc previousResultId (Delta delta) =
           (s, Inr (Delta delta))"
  using assms by (auto simp: provideDocumentSemanticTokensEdits_def)

theorem cache_miss_returns_delta_unchanged_witness:
  "lastTokens cached_state 1 = None \<and>
   provideDocumentSemanticTokensEdits cached_state 1 ''r1'' (Delta example_delta) =
     (cached_state, Inr (Delta example_delta)) \<and>
   lastTokens cached_state 0 = Some example_tokens \<and>
   resultId example_tokens \<noteq> Some ''r0'' \<and>
   provideDocumentSemanticTokensEdits cached_state 0 ''r0'' (Delta example_delta) =
     (cached_state, Inr (Delta example_delta))"
proof -
  have a: "lastTokens cached_state 1 = None"
    and b: "lastTokens cached_state 0 = Some example_tokens"
    and c: "resultId example_tokens \<noteq> Some ''r0''"
    by (simp_all add: cached_state_simps example_tokens_def)
  show ?thesis
    using cache_miss_returns_delta_unchanged[of cached_state 1 "''r1''" example_delta]
      cache_miss_returns_delta_unchanged[of cached_state 0 "''r0''" example_delta]
      a b c by blast
qed

text \<open>
  C5. \<open>provideDocumentSemanticTokens\<close> stores the payload it was given as the cached
  buffer of the document; the array of the payload, like every array allocated before
  the call, has the contents it had before; the buffer returned is a new array, not the
  array of the payload, with the result id of the payload, and its contents are those
  of the input except that every type index field equal to the inactive index holds
  the sentinel (\<open>remap\<close>). The remapping writes to the new array only.
\<close>

theorem full_tokens_cached_unmapped_and_copy_remapped:
  assumes "data t < length (store s)" and "a < length (store s)"
  shows "case provideDocumentSemanticTokens s doc t of
           (s', Inl e) \<Rightarrow> False
         | (s', Inr out) \<Rightarrow>
             lastTokens s' doc = Some t \<and>
             store s' ! data t = store s ! data t \<and>
             store s' ! a = store s ! a \<and>
             data out = length (store s) \<and>
             data out \<noteq> data t \<and>
             resultId out = resultId t \<and>
             store s' ! data out =
               remap (inactiveCodeTokenTypeIndex s) (inactiveCodeTokenTypeReplaceIndex s)
                 (store s ! data t)"
  using assms by (simp add: provideDocumentSemanticTokens_eq nth_append)

theorem full_tokens_cached_unmapped_and_copy_remapped_witness:
  "data example_tokens < length (store example_state) \<and>
   (2::nat) < length (store example_state) \<and>
   (case provideDocumentSemanticTokens example_state 0 example_tokens of
      (s', Inl e) \<Rightarrow> False
    | (s', Inr out) \<Rightarrow>
        lastTokens s' 0 = Some example_tokens \<and>
        store s' ! data example_tokens = [0, 5, 3, 7, 0,  0, 3, 4, 7, 0,  1, 2, 6, 7, 0] \<and>
        store s' ! 2 = plain_buffer \<and>
        data out = 4 \<and>
        store s' ! data out = [0, 5, 3, 8, 0,  0, 3, 4, 8, 0,  1, 2, 6, 8, 0])"
proof -
  have h: "data example_tokens < length (store example_state)" "(2::nat) < length (store example_state)"
    by (simp_all add: example_state_simps example_tokens_def)
  have r: "remap (Num 7) (Num 8) example_buffer = [0, 5, 3, 8, 0,  0, 3, 4, 8, 0,  1, 2, 6, 8, 0]"
    by (simp add: remap_def example_buffer_def upt_rec)
  have "case provideDocumentSemanticTokens example_state 0 example_tokens of
      (s', Inl e) \<Rightarrow> False
    | (s', Inr out) \<Rightarrow>
        lastTokens s' 0 = Some example_tokens \<and>
        store s' ! data example_tokens = [0, 5, 3, 7, 0,  0, 3, 4, 7, 0,  1, 2, 6, 7, 0] \<and>
        store s' ! 2 = plain_buffer \<and>
        data out = 4 \<and>
        store s' ! data out = [0, 5, 3, 8, 0,  0, 3, 4, 8, 0,  1, 2, 6, 8, 0]"
    using full_tokens_cached_unmapped_and_copy_remapped[OF h, of 0]
    by (auto simp: example_state_simps example_tokens_def r split: prod.splits sum.splits)
       (simp_all add: example_buffer_def)
  then show ?thesis using h by blast
qed

text \<open>
  C6. When the server advertises a legend, \<open>initialize\<close> records the length of the legend
  as the replacement index, whatever the legend names, and changes nothing of the state
  but the two indices. When the legend names \<open>'comment'\<close> at index \<open>i\<close> (and nowhere after
  \<open>i\<close>), it records \<open>i\<close> as the inactive index; when the legend does not name \<open>'comment'\<close>
  there is no such index to record and the inactive index stays what it was. When no
  legend is advertised, \<open>initialize\<close> changes nothing; in the session started from the
  freshly loaded module no index is recorded then and the feature is inert: the
  remapped copy of every buffer equals the buffer, and decoding a token buffer yields
  no range. A token buffer is a sequence of 5-tuples: that its length is a multiple of 5
  is the invariant of the specification's data model, and the hypothesis on the length
  says no more than that; a payload with an incomplete last tuple is not a token
  buffer, and what the module does with one is the subject of C7. \<open>initialize\<close> is
  modelled as one call; that it is called once for a session is the host's part.
\<close>

theorem initialize_resolves_comment_index:
  "(semanticTokensProvider capabilities = Some tokenTypes \<longrightarrow>
      inactiveCodeTokenTypeReplaceIndex (initialize s capabilities) = Num (length tokenTypes)) \<and>
   (semanticTokensProvider capabilities = Some tokenTypes \<and>
    i < length tokenTypes \<and> tokenTypes ! i = ''comment'' \<and>
    ''comment'' \<notin> set (drop (Suc i) tokenTypes) \<longrightarrow>
      inactiveCodeTokenTypeIndex (initialize s capabilities) = Num i) \<and>
   (semanticTokensProvider capabilities = Some tokenTypes \<and> ''comment'' \<notin> set tokenTypes \<longrightarrow>
      inactiveCodeTokenTypeIndex (initialize s capabilities) = inactiveCodeTokenTypeIndex s) \<and>
   initialize s capabilities =
     s\<lparr>inactiveCodeTokenTypeIndex := inactiveCodeTokenTypeIndex (initialize s capabilities),
       inactiveCodeTokenTypeReplaceIndex :=
         inactiveCodeTokenTypeReplaceIndex (initialize s capabilities)\<rparr> \<and>
   (semanticTokensProvider capabilities = None \<longrightarrow>
      initialize s capabilities = s) \<and>
   (semanticTokensProvider capabilities = None \<longrightarrow>
      inactiveCodeTokenTypeIndex (initialize (initial_state h editors) capabilities) = Undefined \<and>
      inactiveCodeTokenTypeReplaceIndex (initialize (initial_state h editors) capabilities) =
        Undefined \<and>
      (case replaceInactiveRanges (initialize (initial_state h editors) capabilities) t of
         (s', Inl e) \<Rightarrow> False
       | (s', Inr out) \<Rightarrow> store s' ! data out = h ! data t)) \<and>
   (semanticTokensProvider capabilities = None \<and> length (h ! data t) mod 5 = 0 \<longrightarrow>
      computeInactiveRanges (initialize (initial_state h editors) capabilities) t = [])"
proof (intro conjI impI)
  assume "semanticTokensProvider capabilities = Some tokenTypes"
  then show "inactiveCodeTokenTypeReplaceIndex (initialize s capabilities) = Num (length tokenTypes)"
    by (simp add: initialize_def)
next
  assume a: "semanticTokensProvider capabilities = Some tokenTypes \<and>
    i < length tokenTypes \<and> tokenTypes ! i = ''comment'' \<and>
    ''comment'' \<notin> set (drop (Suc i) tokenTypes)"
  then show "inactiveCodeTokenTypeIndex (initialize s capabilities) = Num i"
    using initialize_loop_last[of i tokenTypes 0 "inactiveCodeTokenTypeIndex s"]
    by (simp add: initialize_def)
next
  assume "semanticTokensProvider capabilities = Some tokenTypes \<and> ''comment'' \<notin> set tokenTypes"
  then show "inactiveCodeTokenTypeIndex (initialize s capabilities) = inactiveCodeTokenTypeIndex s"
    by (simp add: initialize_def initialize_loop_absent)
next
  show "initialize s capabilities =
     s\<lparr>inactiveCodeTokenTypeIndex := inactiveCodeTokenTypeIndex (initialize s capabilities),
       inactiveCodeTokenTypeReplaceIndex :=
         inactiveCodeTokenTypeReplaceIndex (initialize s capabilities)\<rparr>"
    by (simp add: initialize_def split: option.splits)
next
  assume "semanticTokensProvider capabilities = None"
  then show "initialize s capabilities = s" by (simp add: initialize_def)
next
  assume a: "semanticTokensProvider capabilities = None"
  let ?s = "initialize (initial_state h editors) capabilities"
  have s: "?s = initial_state h editors" using a by (simp add: initialize_def)
  have st: "store ?s = h" "inactiveCodeTokenTypeIndex ?s = Undefined"
    "inactiveCodeTokenTypeReplaceIndex ?s = Undefined"
    unfolding s by (simp_all add: initial_state_def)
  show "inactiveCodeTokenTypeIndex ?s = Undefined" by (rule st)
  show "inactiveCodeTokenTypeReplaceIndex ?s = Undefined" by (rule st)
  show "case replaceInactiveRanges ?s t of
         (s', Inl e) \<Rightarrow> False
       | (s', Inr out) \<Rightarrow> store s' ! data out = h ! data t"
    by (simp add: replaceInactiveRanges_eq st remap_Undefined)
next
  assume a: "semanticTokensProvider capabilities = None \<and> length (h ! data t) mod 5 = 0"
  let ?s = "initialize (initial_state h editors) capabilities"
  have s: "?s = initial_state h editors" using a by (simp add: initialize_def)
  have st: "store ?s = h" "inactiveCodeTokenTypeIndex ?s = Undefined"
    unfolding s by (simp_all add: initial_state_def)
  have len: "length (store ?s ! data t) mod 5 = 0" using a by (simp add: st)
  show "computeInactiveRanges ?s t = []"
    using computeInactiveRanges_positions[OF len]
    by (simp add: st inactive_positions_Undefined)
qed

theorem initialize_resolves_comment_index_witness:
  "semanticTokensProvider \<lparr>semanticTokensProvider = Some example_legend\<rparr> = Some example_legend \<and>
   (7::nat) < length example_legend \<and> example_legend ! 7 = ''comment'' \<and>
   ''comment'' \<notin> set (drop (Suc 7) example_legend) \<and>
   inactiveCodeTokenTypeIndex example_state = Num 7 \<and>
   inactiveCodeTokenTypeReplaceIndex example_state = Num 8 \<and>
   semanticTokensProvider \<lparr>semanticTokensProvider = Some legend_without_comment\<rparr> =
     Some legend_without_comment \<and>
   ''comment'' \<notin> set legend_without_comment \<and>
   inactiveCodeTokenTypeReplaceIndex
     (initialize example_state \<lparr>semanticTokensProvider = Some legend_without_comment\<rparr>) = Num 2 \<and>
   inactiveCodeTokenTypeIndex
     (initialize example_state \<lparr>semanticTokensProvider = Some legend_without_comment\<rparr>) = Num 7 \<and>
   inactiveCodeTokenTypeReplaceIndex
     (initialize (initial_state [short_buffer] []) \<lparr>semanticTokensProvider = Some legend_without_comment\<rparr>) =
     Num 2 \<and>
   inactiveCodeTokenTypeIndex
     (initialize (initial_state [short_buffer] []) \<lparr>semanticTokensProvider = Some legend_without_comment\<rparr>) =
     Undefined \<and>
   semanticTokensProvider \<lparr>semanticTokensProvider = None\<rparr> = None \<and>
   initialize example_state \<lparr>semanticTokensProvider = None\<rparr> = example_state \<and>
   length ([example_buffer, short_buffer] ! data example_tokens) mod 5 = 0 \<and>
   computeInactiveRanges
     (initialize (initial_state [example_buffer, short_buffer] []) \<lparr>semanticTokensProvider = None\<rparr>)
     example_tokens = [] \<and>
   (case replaceInactiveRanges
           (initialize (initial_state [example_buffer, short_buffer] []) \<lparr>semanticTokensProvider = None\<rparr>)
           example_tokens of
      (s', Inl e) \<Rightarrow> False
    | (s', Inr out) \<Rightarrow> store s' ! data out = [0, 5, 3, 7, 0,  0, 3, 4, 7, 0,  1, 2, 6, 7, 0]) \<and>
   (case replaceInactiveRanges
           (initialize (initial_state [example_buffer, short_buffer] []) \<lparr>semanticTokensProvider = None\<rparr>)
           short_tokens of
      (s', Inl e) \<Rightarrow> False
    | (s', Inr out) \<Rightarrow> store s' ! data out = [0, 5, 3, 7, 0,  0, 3])"
proof -
  let ?with = "\<lparr>semanticTokensProvider = Some example_legend\<rparr>"
  let ?without = "\<lparr>semanticTokensProvider = Some legend_without_comment\<rparr>"
  let ?none = "\<lparr>semanticTokensProvider = None\<rparr>"
  let ?h = "[example_buffer, short_buffer]"
  have a: "semanticTokensProvider ?with = Some example_legend"
    "(7::nat) < length example_legend" "example_legend ! 7 = ''comment''"
    "''comment'' \<notin> set (drop (Suc 7) example_legend)"
    by (simp_all add: example_legend_def)
  have w: "semanticTokensProvider ?without = Some legend_without_comment"
    "''comment'' \<notin> set legend_without_comment"
    by (simp_all add: legend_without_comment_def)
  have b: "semanticTokensProvider ?none = None"
    "length (?h ! data example_tokens) mod 5 = 0"
    by (simp_all add: example_tokens_def example_buffer_def)
  have d: "?h ! data example_tokens = [0, 5, 3, 7, 0,  0, 3, 4, 7, 0,  1, 2, 6, 7, 0]"
    "?h ! data short_tokens = [0, 5, 3, 7, 0,  0, 3]"
    by (simp_all add: example_tokens_def short_tokens_def example_buffer_def short_buffer_def)
  note t = initialize_resolves_comment_index
  let ?i0 = "initial_state [example_buffer, short_buffer, plain_buffer, insert_buffer] [example_editor]"
  have t1: "inactiveCodeTokenTypeReplaceIndex example_state = Num 8"
    using t[where capabilities = ?with and tokenTypes = example_legend and s = ?i0,
        THEN conjunct1, rule_format, OF a(1), folded example_state_def]
    by (simp add: example_legend_def)
  have t2: "inactiveCodeTokenTypeIndex example_state = Num 7"
    using t[where capabilities = ?with and tokenTypes = example_legend and s = ?i0 and i = 7,
        THEN conjunct2, THEN conjunct1, rule_format,
        OF conjI[OF a(1) conjI[OF a(2) conjI[OF a(3) a(4)]]], folded example_state_def] .
  have t3: "inactiveCodeTokenTypeReplaceIndex (initialize example_state ?without) = Num 2"
    using t[where capabilities = ?without and tokenTypes = legend_without_comment
          and s = example_state, THEN conjunct1, rule_format, OF w(1)]
    by (simp add: legend_without_comment_def)
  have t4: "inactiveCodeTokenTypeIndex (initialize example_state ?without) = Num 7"
    using t[where capabilities = ?without and tokenTypes = legend_without_comment
          and s = example_state,
        THEN conjunct2, THEN conjunct2, THEN conjunct1, rule_format, OF conjI[OF w(1) w(2)]] t2
    by simp
  have t5: "inactiveCodeTokenTypeReplaceIndex (initialize (initial_state [short_buffer] []) ?without) = Num 2"
    using t[where capabilities = ?without and tokenTypes = legend_without_comment
          and s = "initial_state [short_buffer] []", THEN conjunct1, rule_format, OF w(1)]
    by (simp add: legend_without_comment_def)
  have t6: "inactiveCodeTokenTypeIndex (initialize (initial_state [short_buffer] []) ?without) = Undefined"
    using t[where capabilities = ?without and tokenTypes = legend_without_comment
          and s = "initial_state [short_buffer] []",
        THEN conjunct2, THEN conjunct2, THEN conjunct1, rule_format, OF conjI[OF w(1) w(2)]]
    by (simp add: initial_state_def)
  have t7: "initialize example_state ?none = example_state"
    using t[where capabilities = ?none and s = example_state,
        THEN conjunct2, THEN conjunct2, THEN conjunct2, THEN conjunct2,
        THEN conjunct1, rule_format, OF b(1)] .
  have t8: "case replaceInactiveRanges (initialize (initial_state ?h []) ?none) example_tokens of
      (s', Inl e) \<Rightarrow> False
    | (s', Inr out) \<Rightarrow> store s' ! data out = [0, 5, 3, 7, 0,  0, 3, 4, 7, 0,  1, 2, 6, 7, 0]"
    using t[where capabilities = ?none and h = ?h and editors = "[]" and t = example_tokens,
        THEN conjunct2, THEN conjunct2, THEN conjunct2, THEN conjunct2,
        THEN conjunct2, THEN conjunct1, rule_format,
        OF b(1), THEN conjunct2, THEN conjunct2, unfolded d] .
  have t9: "case replaceInactiveRanges (initialize (initial_state ?h []) ?none) short_tokens of
      (s', Inl e) \<Rightarrow> False
    | (s', Inr out) \<Rightarrow> store s' ! data out = [0, 5, 3, 7, 0,  0, 3]"
    using t[where capabilities = ?none and h = ?h and editors = "[]" and t = short_tokens,
        THEN conjunct2, THEN conjunct2, THEN conjunct2, THEN conjunct2,
        THEN conjunct2, THEN conjunct1, rule_format,
        OF b(1), THEN conjunct2, THEN conjunct2, unfolded d] .
  have t10: "computeInactiveRanges (initialize (initial_state ?h []) ?none) example_tokens = []"
    using t[where capabilities = ?none and h = ?h and editors = "[]" and t = example_tokens,
        THEN conjunct2, THEN conjunct2, THEN conjunct2, THEN conjunct2,
        THEN conjunct2, THEN conjunct2, rule_format, OF conjI[OF b(1) b(2)]] .
  show ?thesis
    by (intro conjI a w b t1 t2 t3 t4 t5 t6 t7 t8 t9 t10)
qed

text \<open>
  C7, as the code has it. The claim that a payload whose buffer length is not a multiple
  of 5 aborts and leaves the cache untouched does not hold: the module never looks at
  the length. The first theorem shows it at a buffer of seven integers: the call
  returns, and the cached buffer and ranges of the document are replaced. What holds
  instead is the second theorem: for such a payload \<open>provideDocumentSemanticTokens\<close>
  returns normally; what it returns is a new array, not the array of the payload,
  with the result id of the payload and the remapped contents of the payload
  (\<open>remap\<close>, which reaches the type index of an incomplete last tuple when that tuple has
  one); every array allocated before the call has the contents it had; the payload
  becomes the cached buffer of its document and the ranges decoded from it become the
  cached ranges; and the cached buffer and ranges of every other document are left as
  they were.
\<close>

theorem malformed_length_aborts_counterexample:
  "length (store cached_state ! data short_tokens) mod 5 \<noteq> 0 \<and>
   lastTokens cached_state 0 = Some example_tokens \<and>
   lastInactiveRanges cached_state 0 = Some [range_of 0 5 3, range_of 0 8 4, range_of 1 2 6] \<and>
   snd (provideDocumentSemanticTokens cached_state 0 short_tokens) =
     Inr \<lparr>resultId = Some ''r2'', data = 5\<rparr> \<and>
   lastTokens (fst (provideDocumentSemanticTokens cached_state 0 short_tokens)) 0 =
     Some short_tokens \<and>
   lastInactiveRanges (fst (provideDocumentSemanticTokens cached_state 0 short_tokens)) 0 =
     Some [range_of 0 5 3] \<and>
   short_tokens \<noteq> example_tokens"
proof -
  have "length (store cached_state ! data short_tokens) mod 5 \<noteq> 0"
    by (simp add: cached_state_simps short_tokens_def short_buffer_def)
  moreover have "short_tokens \<noteq> example_tokens"
    by (simp add: short_tokens_def example_tokens_def)
  moreover have "snd (provideDocumentSemanticTokens cached_state 0 short_tokens) =
     Inr \<lparr>resultId = Some ''r2'', data = 5\<rparr>"
    by (simp add: provideDocumentSemanticTokens_eq cached_state_simps short_tokens_def)
  ultimately show ?thesis
    by (simp add: provideDocumentSemanticTokens_eq computeInactiveRanges_short cached_state_simps)
qed

theorem malformed_length_is_not_checked:
  assumes "length (store s ! data t) mod 5 \<noteq> 0"
    and "data t < length (store s)" and "a < length (store s)" and "d \<noteq> doc"
  shows "case provideDocumentSemanticTokens s doc t of
           (s', Inl e) \<Rightarrow> False
         | (s', Inr out) \<Rightarrow>
             out = \<lparr>resultId = resultId t, data = length (store s)\<rparr> \<and>
             data out \<noteq> data t \<and>
             store s' ! data out =
               remap (inactiveCodeTokenTypeIndex s) (inactiveCodeTokenTypeReplaceIndex s)
                 (store s ! data t) \<and>
             store s' ! a = store s ! a \<and>
             lastTokens s' doc = Some t \<and>
             lastInactiveRanges s' doc = Some (computeInactiveRanges s t) \<and>
             lastTokens s' d = lastTokens s d \<and>
             lastInactiveRanges s' d = lastInactiveRanges s d"
  using assms by (simp add: provideDocumentSemanticTokens_eq nth_append)

theorem malformed_length_is_not_checked_witness:
  "length (store cached_state ! data short_tokens) mod 5 \<noteq> 0 \<and>
   data short_tokens < length (store cached_state) \<and>
   (0::nat) < length (store cached_state) \<and> (0::nat) \<noteq> 1 \<and>
   (case provideDocumentSemanticTokens cached_state 1 short_tokens of
           (s', Inl e) \<Rightarrow> False
         | (s', Inr out) \<Rightarrow>
             out = \<lparr>resultId = Some ''r2'', data = 5\<rparr> \<and>
             data out \<noteq> data short_tokens \<and>
             store s' ! data out = [0, 5, 3, 8, 0,  0, 3] \<and>
             store s' ! 0 = example_buffer \<and>
             lastTokens s' 1 = Some short_tokens \<and>
             lastInactiveRanges s' 1 = Some [range_of 0 5 3] \<and>
             lastTokens s' 0 = Some example_tokens \<and>
             lastInactiveRanges s' 0 = Some [range_of 0 5 3, range_of 0 8 4, range_of 1 2 6])"
proof -
  have h: "length (store cached_state ! data short_tokens) mod 5 \<noteq> 0"
    "data short_tokens < length (store cached_state)"
    "(0::nat) < length (store cached_state)" "(0::nat) \<noteq> 1"
    by (simp_all add: cached_state_simps short_tokens_def short_buffer_def)
  have r: "remap (inactiveCodeTokenTypeIndex cached_state)
             (inactiveCodeTokenTypeReplaceIndex cached_state)
             (store cached_state ! data short_tokens) = [0, 5, 3, 8, 0,  0, 3]"
    by (simp add: cached_state_simps short_tokens_def remap_short_buffer)
  have v: "resultId short_tokens = Some ''r2''" "length (store cached_state) = 5"
    "store cached_state ! 0 = example_buffer"
    "lastTokens cached_state 0 = Some example_tokens"
    "lastInactiveRanges cached_state 0 = Some [range_of 0 5 3, range_of 0 8 4, range_of 1 2 6]"
    by (simp_all add: cached_state_simps short_tokens_def)
  show ?thesis
    using malformed_length_is_not_checked[OF h,
        unfolded computeInactiveRanges_short r v] h
    by blast
qed

text \<open>
  C8. For a buffer whose length is a multiple of 5 and that has no tuple whose type
  index equals the inactive index, \<open>computeInactiveRanges\<close> returns the empty sequence and
  the buffer returned by \<open>replaceInactiveRanges\<close> is value-equal to the input.
\<close>

theorem no_inactive_tuple_is_identity:
  assumes "length (store s ! data t) mod 5 = 0"
    and "\<forall>tok \<in> set (tuples (store s ! data t)).
           \<not> loose_eq (Num (typeIndex tok)) (inactiveCodeTokenTypeIndex s)"
  shows "computeInactiveRanges s t = [] \<and>
         (case replaceInactiveRanges s t of
            (s', Inl e) \<Rightarrow> False
          | (s', Inr out) \<Rightarrow> store s' ! data out = store s ! data t)"
proof -
  let ?b = "store s ! data t"
  let ?idx = "inactiveCodeTokenTypeIndex s"
  have n: "length ?b = 5 * (length ?b div 5)" using assms(1) by auto
  have none: "p < length ?b div 5 \<Longrightarrow> \<not> loose_eq (Num (unat (?b ! (5 * p + 3)))) ?idx" for p
    using assms(2) by (auto simp: tuples_def typeIndex_tuple_at)
  have pos: "inactive_positions ?idx ?b = []"
    using none by (auto simp: inactive_positions_def filter_empty_conv)
  have "remap ?idx (inactiveCodeTokenTypeReplaceIndex s) ?b = ?b"
  proof (rule nth_equalityI)
    show "length (remap ?idx (inactiveCodeTokenTypeReplaceIndex s) ?b) = length ?b"
      by (rule remap_length)
  next
    fix j assume "j < length (remap ?idx (inactiveCodeTokenTypeReplaceIndex s) ?b)"
    then have j: "j < length ?b" by (simp add: remap_length)
    have d: "j div 5 < length ?b div 5"
      using j n less_mult_imp_div_less[of j "length ?b div 5" 5] by (simp add: mult.commute)
    have "j mod 5 = 3 \<Longrightarrow> 5 * (j div 5) + 3 = j" using mult_div_mod_eq[of 5 j] by simp
    then have "j mod 5 = 3 \<Longrightarrow> \<not> loose_eq (Num (unat (?b ! j))) ?idx"
      using none[OF d] by simp
    then show "remap ?idx (inactiveCodeTokenTypeReplaceIndex s) ?b ! j = ?b ! j"
      using j by (auto simp: remap_nth)
  qed
  then show ?thesis
    by (simp add: computeInactiveRanges_positions[OF assms(1)] pos replaceInactiveRanges_eq)
qed

theorem no_inactive_tuple_is_identity_witness:
  "length (store example_state ! data plain_tokens) mod 5 = 0 \<and>
   \<not> loose_eq (Num (typeIndex (0, 5, 3, 2, 0))) (inactiveCodeTokenTypeIndex example_state) \<and>
   \<not> loose_eq (Num (typeIndex (1, 2, 6, 4, 0))) (inactiveCodeTokenTypeIndex example_state) \<and>
   tuples (store example_state ! data plain_tokens) = [(0, 5, 3, 2, 0), (1, 2, 6, 4, 0)] \<and>
   computeInactiveRanges example_state plain_tokens = [] \<and>
   (case replaceInactiveRanges example_state plain_tokens of
      (s', Inl e) \<Rightarrow> False
    | (s', Inr out) \<Rightarrow> store s' ! data out = [0, 5, 3, 2, 0,  1, 2, 6, 4, 0])"
proof -
  have b: "store example_state ! data plain_tokens = plain_buffer"
    by (simp add: example_state_simps plain_tokens_def)
  have len: "length (store example_state ! data plain_tokens) mod 5 = 0"
    by (simp add: b plain_buffer_def)
  have ty: "\<not> loose_eq (Num (typeIndex (0, 5, 3, 2, 0))) (inactiveCodeTokenTypeIndex example_state)"
    "\<not> loose_eq (Num (typeIndex (1, 2, 6, 4, 0))) (inactiveCodeTokenTypeIndex example_state)"
    by (simp_all add: example_state_simps)
  have tu: "tuples (store example_state ! data plain_tokens) = [(0, 5, 3, 2, 0), (1, 2, 6, 4, 0)]"
    by (simp add: b tuples_plain_buffer)
  have hyp: "\<forall>tok \<in> set (tuples (store example_state ! data plain_tokens)).
           \<not> loose_eq (Num (typeIndex tok)) (inactiveCodeTokenTypeIndex example_state)"
    using ty unfolding tu by simp
  have c: "computeInactiveRanges example_state plain_tokens = []"
    "(case replaceInactiveRanges example_state plain_tokens of
      (s', Inl e) \<Rightarrow> False
    | (s', Inr out) \<Rightarrow> store s' ! data out = [0, 5, 3, 2, 0,  1, 2, 6, 4, 0])"
    using no_inactive_tuple_is_identity[OF len hyp, unfolded b plain_buffer_def] by simp_all
  show ?thesis by (intro conjI len ty tu c)
qed

text \<open>
  C9. The handler of the visible-editors-change event changes nothing but the list of
  rendering requests, to which it adds, for each editor delivered in turn, one request
  with the ranges cached for the document of the editor, and none when no ranges are
  cached for it. So for an editor bound to a document whose cached ranges are \<open>R\<close> the
  event issues exactly one request, carrying \<open>R\<close>; for an editor whose document has no
  cached ranges it issues none, and nothing fails. The handler reads the cache only:
  no buffer is decoded, and the caches and the store are as before.
\<close>

theorem visible_editors_change_applies_cached_ranges:
  "onDidChangeVisibleTextEditors s editors =
     s\<lparr>decorations := decorations s @
          concat (map (\<lambda>e. case lastInactiveRanges s (document e) of
                              Some R \<Rightarrow> [(e, R)] | None \<Rightarrow> []) editors)\<rparr> \<and>
   (lastInactiveRanges s (document editor) = Some R \<longrightarrow>
      onDidChangeVisibleTextEditors s [editor] =
        s\<lparr>decorations := decorations s @ [(editor, R)]\<rparr>) \<and>
   (lastInactiveRanges s (document editor) = None \<longrightarrow>
      onDidChangeVisibleTextEditors s [editor] = s)"
  by (simp add: onDidChangeVisibleTextEditors_eq)

theorem visible_editors_change_applies_cached_ranges_witness:
  "lastInactiveRanges cached_state (document example_editor) =
     Some [range_of 0 5 3, range_of 0 8 4, range_of 1 2 6] \<and>
   onDidChangeVisibleTextEditors cached_state [example_editor] =
     cached_state\<lparr>decorations := decorations cached_state @
        [(example_editor, [range_of 0 5 3, range_of 0 8 4, range_of 1 2 6])]\<rparr> \<and>
   lastInactiveRanges cached_state (document \<lparr>editor_id = 1, document = 1\<rparr>) = None \<and>
   onDidChangeVisibleTextEditors cached_state [\<lparr>editor_id = 1, document = 1\<rparr>] = cached_state"
proof -
  have a: "lastInactiveRanges cached_state (document example_editor) =
     Some [range_of 0 5 3, range_of 0 8 4, range_of 1 2 6]"
    by (simp add: cached_state_simps example_editor_def)
  have b: "lastInactiveRanges cached_state (document \<lparr>editor_id = 1, document = 1\<rparr>) = None"
    by (simp add: cached_state_simps)
  show ?thesis
    using visible_editors_change_applies_cached_ranges[of cached_state "[]" example_editor
        "[range_of 0 5 3, range_of 0 8 4, range_of 1 2 6]"]
      visible_editors_change_applies_cached_ranges[of cached_state "[]" "\<lparr>editor_id = 1, document = 1\<rparr>"]
      a b by blast
qed

text \<open>
  C10. \<open>applyDelta\<close> gives the buffer it returns the result id of the delta, and
  \<open>replaceInactiveRanges\<close> gives its result the result id of its input. So whenever
  \<open>provideDocumentSemanticTokensEdits\<close> has processed a payload (it returns a full
  buffer), the buffer cached for the document and the buffer returned both carry
  the result id of that payload; and a delta that arrives next for the document and
  names that result id as its predecessor passes the cache check: the call does not
  fall back to returning the delta.
\<close>

theorem resultId_follows_latest_payload:
  "(applyDelta h prev delta = Inr (h', t) \<longrightarrow> resultId t = edits_resultId delta) \<and>
   (snd (replaceInactiveRanges s0 t0) = Inr out0 \<longrightarrow> resultId out0 = resultId t0) \<and>
   (snd (provideDocumentSemanticTokensEdits s doc previousResultId tokens) = Inr (Full out) \<longrightarrow>
      map_option resultId
        (lastTokens (fst (provideDocumentSemanticTokensEdits s doc previousResultId tokens)) doc) =
        Some (payload_resultId tokens) \<and>
      resultId out = payload_resultId tokens \<and>
      (payload_resultId tokens = Some r \<longrightarrow>
         cache_hit (fst (provideDocumentSemanticTokensEdits s doc previousResultId tokens)) doc r \<and>
         snd (provideDocumentSemanticTokensEdits
                (fst (provideDocumentSemanticTokensEdits s doc previousResultId tokens)) doc r
                (Delta next)) \<noteq> Inr (Delta next)))"
proof (intro conjI impI)
  assume "applyDelta h prev delta = Inr (h', t)"
  then show "resultId t = edits_resultId delta" by (rule applyDelta_resultId)
next
  assume "snd (replaceInactiveRanges s0 t0) = Inr out0"
  then show "resultId out0 = resultId t0" by (auto simp: replaceInactiveRanges_eq)
next
  let ?s' = "fst (provideDocumentSemanticTokensEdits s doc previousResultId tokens)"
  assume a: "snd (provideDocumentSemanticTokensEdits s doc previousResultId tokens) = Inr (Full out)"
  from processed_payload_cached[OF a]
  obtain c where c: "lastTokens ?s' doc = Some c" "resultId c = payload_resultId tokens"
    "resultId out = payload_resultId tokens" by blast
  show "map_option resultId (lastTokens ?s' doc) = Some (payload_resultId tokens)"
    using c by simp
  show "resultId out = payload_resultId tokens" by (rule c)
  assume r: "payload_resultId tokens = Some r"
  show hit: "cache_hit ?s' doc r" using c r by (simp add: cache_hit_def)
  show "snd (provideDocumentSemanticTokensEdits ?s' doc r (Delta next)) \<noteq> Inr (Delta next)"
    by (rule cache_hit_not_fallback[OF hit])
qed

theorem resultId_follows_latest_payload_witness:
  "applyDelta [example_buffer, short_buffer, plain_buffer, insert_buffer] example_tokens example_delta =
     Inr ([example_buffer, short_buffer, plain_buffer, insert_buffer,
           [2, 1, 4, 7, 0,  0, 5, 3, 7, 0,  1, 2, 6, 7, 0]],
          \<lparr>resultId = Some ''r4'', data = 4\<rparr>) \<and>
   resultId \<lparr>resultId = Some ''r4'', data = 4\<rparr> = edits_resultId example_delta \<and>
   snd (replaceInactiveRanges example_state example_tokens) =
     Inr \<lparr>resultId = Some ''r1'', data = 4\<rparr> \<and>
   resultId \<lparr>resultId = Some ''r1'', data = 4\<rparr> = resultId example_tokens \<and>
   snd (provideDocumentSemanticTokensEdits cached_state 0 ''r1'' (Delta example_delta)) =
     Inr (Full \<lparr>resultId = Some ''r4'', data = 6\<rparr>) \<and>
   payload_resultId (Delta example_delta) = Some ''r4'' \<and>
   map_option resultId
     (lastTokens (fst (provideDocumentSemanticTokensEdits cached_state 0 ''r1'' (Delta example_delta))) 0) =
     Some (Some ''r4'') \<and>
   resultId \<lparr>resultId = Some ''r4'', data = 6\<rparr> = Some ''r4'' \<and>
   cache_hit (fst (provideDocumentSemanticTokensEdits cached_state 0 ''r1'' (Delta example_delta)))
     0 ''r4'' \<and>
   snd (provideDocumentSemanticTokensEdits
          (fst (provideDocumentSemanticTokensEdits cached_state 0 ''r1'' (Delta example_delta)))
          0 ''r4'' (Delta example_delta)) \<noteq> Inr (Delta example_delta)"
proof -
  have h1: "snd (replaceInactiveRanges example_state example_tokens) =
     Inr \<lparr>resultId = Some ''r1'', data = 4\<rparr>"
    by (simp add: replaceInactiveRanges_eq example_state_simps example_tokens_def)
  have h2: "payload_resultId (Delta example_delta) = Some ''r4''"
    by (simp add: example_delta_def)
  note t = resultId_follows_latest_payload[of
      "[example_buffer, short_buffer, plain_buffer, insert_buffer]" example_tokens example_delta
      "[example_buffer, short_buffer, plain_buffer, insert_buffer,
           [2, 1, 4, 7, 0,  0, 5, 3, 7, 0,  1, 2, 6, 7, 0]]"
      "\<lparr>resultId = Some ''r4'', data = 4\<rparr>"
      example_state example_tokens "\<lparr>resultId = Some ''r1'', data = 4\<rparr>"
      cached_state 0 "''r1''" "Delta example_delta" "\<lparr>resultId = Some ''r4'', data = 6\<rparr>"
      "''r4''" example_delta]
  note t1 = t[THEN conjunct1, rule_format, OF applyDelta_example]
  note t2 = t[THEN conjunct2, THEN conjunct1, rule_format, OF h1]
  note t3 = t[THEN conjunct2, THEN conjunct2, rule_format, OF delta_on_cached_state]
  note t4 = t3[THEN conjunct2, THEN conjunct2, rule_format, OF h2]
  show ?thesis
    using applyDelta_example t1 h1 t2 delta_on_cached_state h2 t3 t4
    by (simp add: h2)
qed

end
